theory Spec2Isabelle
  imports Main "HOL-Library.Word" "HOL-Library.Signed_Division"
begin

unbundle bit_operations_syntax

section \<open>The MPT file reader of tpidump.c\<close>

text \<open>
  The development embeds the digit reader of \<^verbatim>\<open>src/tpidump.c\<close>:
  \<^verbatim>\<open>mpt_reader_open\<close>, \<^verbatim>\<open>mpt_reader_fill\<close>, \<^verbatim>\<open>mpt_reader_get_digit\<close>,
  \<^verbatim>\<open>mpt_reader_getc\<close> and \<^verbatim>\<open>mpt_reader_close\<close>.

  Conventions.
  \<^item> The header fields and the limbs are the 64-bit values the file holds: \<open>64 word\<close>.
    The expression that computes \<^verbatim>\<open>s->pos\<close> in \<^verbatim>\<open>mpt_reader_open\<close> mixes
    \<^verbatim>\<open>uint64_t\<close> and \<^verbatim>\<open>int64_t\<close>, so C evaluates it modulo \<open>2^64\<close> and the
    assignment reads the result back as a signed value; the model does the same with
    word arithmetic and \<open>sint\<close>.
  \<^item> The other integer fields of the reader are \<open>int\<close>. Where C leaves the behaviour
    undefined (signed overflow, an array index or a shift count out of range, a read
    through a null pointer, a store beyond the buffer) the model returns the fault
    \<open>Undefined\<close> instead of a value.
  \<^item> \<^verbatim>\<open>abort()\<close> ends the process: the model returns the fault \<open>Abort\<close> and no state.
  \<^item> A file is what \<^verbatim>\<open>fread\<close> can see of it: the header structure read from offset 0
    (absent when the file is shorter than the structure) and the whole 8-byte words of
    the file from offset 0, header region included, as \<^verbatim>\<open>fread\<close> stores them in an
    array of \<^verbatim>\<open>uint64_t\<close>. The limbs are the words from byte offset 4096.
  \<^item> The position of the stream is part of the state. The header read leaves it at
    byte 56 and every seek of \<^verbatim>\<open>mpt_reader_fill\<close> asks for a multiple of 8, so it is
    counted in 8-byte words. A seek to a byte offset that is not negative succeeds,
    also beyond the end of the file; a seek to a negative offset fails and leaves the
    position where it is.
  \<^item> Memory allocation is assumed to succeed.
\<close>

subsection \<open>Constants and data\<close>

definition BASE10_EXP :: int where
  "BASE10_EXP = 19"

definition MPT_TYPE_MPZ :: "64 word" where
  "MPT_TYPE_MPZ = 1"

definition MPT_TYPE_MPF :: "64 word" where
  "MPT_TYPE_MPF = 2"

definition MPT_DISK_HEADER_SIZE :: int where
  "MPT_DISK_HEADER_SIZE = 4096"

definition MPT_MAX_BUF_LEN :: int where
  "MPT_MAX_BUF_LEN = 1024 * 1024"

text \<open>\<^verbatim>\<open>static const uint8_t mpt_magic[8] = "MPT\1FILE"\<close>: eight bytes, no terminator.\<close>

definition mpt_magic :: "8 word list" where
  "mpt_magic = [0x4D, 0x50, 0x54, 0x01, 0x46, 0x49, 0x4C, 0x45]"

definition min_int64 :: "int \<Rightarrow> int \<Rightarrow> int" where
  "min_int64 a b = (if a < b then a else b)"

record mpt_disk_header_t =
  magic :: "8 word list"
  len :: "64 word"
  allocated_len :: "64 word"
  type :: "64 word"
  negative :: "64 word"
  hbase :: "64 word"
  expn :: "64 word"

text \<open>
  The field \<open>hbase\<close> is \<^verbatim>\<open>base\<close> in the C structure (renamed: the reader has a field
  \<^verbatim>\<open>base\<close> too). \<open>expn\<close> is an \<^verbatim>\<open>int64_t\<close>: its value is \<open>sint (expn h)\<close>.
\<close>

record disk_file =
  header :: "mpt_disk_header_t option"
  words :: "64 word list"

text \<open>The limbs of a file: its words from byte offset \<^verbatim>\<open>MPT_DISK_HEADER_SIZE\<close>.\<close>

definition body :: "disk_file \<Rightarrow> 64 word list" where
  "body fl = drop (nat (MPT_DISK_HEADER_SIZE div 8)) (words fl)"

text \<open>
  The reader. \<open>f\<close> is the \<^verbatim>\<open>FILE *\<close>: \<open>None\<close> is the null pointer, \<open>Some fl\<close> a handle
  on the (read-only) file \<open>fl\<close>. \<open>fpos\<close> is not a field of the C structure: it is the
  position of the stream \<open>f\<close>, in 8-byte words, which only this reader moves. \<open>buf\<close>
  holds the limbs that have been stored in the buffer so far, from index 0; the
  allocated but never written part of the C buffer is not represented, and reading it
  is \<open>Undefined\<close>.
\<close>

record MPTReader =
  f :: "disk_file option"
  fpos :: nat
  h :: mpt_disk_header_t
  base :: int
  buf :: "64 word list"
  buf_pos :: int
  buf_len :: int
  pos :: int
  start_digit :: int
  base2_exp :: int
  base2_mask :: int
  cur_digit :: int
  cur_limb2 :: "64 word"
  cur_limb10 :: "8 word list"

datatype fault = Abort | Undefined

text \<open>
  \<^verbatim>\<open>mpt_reader_open\<close> returns a null pointer on every failure. The model names the
  branch that returned it, with the names of the specification; \<open>OpenUndefined\<close> is not
  a return: it marks the signed overflow of \<^verbatim>\<open>start_pos *= s->base2_exp\<close>.
\<close>

datatype open_failure =
  UnsupportedBaseError | IoError | FormatError | PositionOutOfRangeError | OpenUndefined

subsection \<open>Opening\<close>

text \<open>
  \<^verbatim>\<open>s->base2_exp = 1; while ((1 << s->base2_exp) != base) s->base2_exp++;\<close>
  The shift \<^verbatim>\<open>1 << 31\<close> overflows \<^verbatim>\<open>int\<close>: the loop gives up there.
\<close>

function base2_exp_loop :: "int \<Rightarrow> nat \<Rightarrow> nat option" where
  "base2_exp_loop b e =
     (if 31 \<le> e then None
      else if (2::int) ^ e \<noteq> b then base2_exp_loop b (Suc e)
      else Some e)"
  by pat_completeness auto
termination
  by (relation "measure (\<lambda>(b, e). 31 - e)") auto

definition in_int64 :: "int \<Rightarrow> bool" where
  "in_int64 x \<longleftrightarrow> - (2 ^ 63) \<le> x \<and> x < 2 ^ 63"

text \<open>
  The initial contents of the structure: \<^verbatim>\<open>memset(s, 0, sizeof( *s))\<close>.
\<close>

definition zero_header :: mpt_disk_header_t where
  "zero_header = \<lparr>magic = replicate 8 0, len = 0, allocated_len = 0, type = 0,
     negative = 0, hbase = 0, expn = 0\<rparr>"

definition zero_reader :: MPTReader where
  "zero_reader = \<lparr>f = None, fpos = 0, h = zero_header, base = 0, buf = [], buf_pos = 0,
     buf_len = 0, pos = 0, start_digit = 0, base2_exp = 0, base2_mask = 0,
     cur_digit = 0, cur_limb2 = 0, cur_limb10 = replicate 19 0\<rparr>"

text \<open>
  The value the code assigns to \<^verbatim>\<open>s->pos\<close>:
  \<^verbatim>\<open>s->h.len - s->h.expn - (start_pos / digits_per_limb)\<close>, computed modulo \<open>2^64\<close>
  and read as a signed 64-bit value. \<open>sdiv\<close> is the truncating division of C.
\<close>

definition limb_offset :: "mpt_disk_header_t \<Rightarrow> int \<Rightarrow> int \<Rightarrow> int" where
  "limb_offset hdr start_pos digits_per_limb =
     sint (len hdr - expn hdr - word_of_int (start_pos sdiv digits_per_limb))"

text \<open>
  The base-dependent part of the set-up: \<open>(digits_per_limb, base2_exp, base2_mask,
  start_pos)\<close> after the \<^verbatim>\<open>if (base == 10) ... else ...\<close> of the source.
\<close>

definition base_setup :: "int \<Rightarrow> int \<Rightarrow> (int \<times> int \<times> int \<times> int) option" where
  "base_setup b start_pos =
     (if b = 10 then Some (BASE10_EXP, 0, 0, start_pos)
      else (case base2_exp_loop b 1 of
              None \<Rightarrow> None
            | Some e \<Rightarrow>
                if in_int64 (start_pos * int e)
                then Some (64, int e, 2 ^ e - 1, start_pos * int e)
                else None))"

text \<open>
  \<^verbatim>\<open>mpt_reader_open\<close> up to the assignment of \<^verbatim>\<open>s->pos\<close>: the reader as it is when
  the position is checked, with the scaled start position and \<^verbatim>\<open>digits_per_limb\<close>.
  The only read is that of the header, \<^verbatim>\<open>fread(&s->h, 1, sizeof(s->h), s->f)\<close>, which
  leaves the stream at byte 56, word 7.
\<close>

definition open_setup :: "disk_file option \<Rightarrow> int \<Rightarrow> int
    \<Rightarrow> open_failure + (MPTReader \<times> int \<times> int)" where
  "open_setup file b start_pos =
     (if b \<noteq> 10 \<and> b \<noteq> 2 \<and> b \<noteq> 16 then Inl UnsupportedBaseError
      else (case file of
        None \<Rightarrow> Inl IoError
      | Some fl \<Rightarrow> (case header fl of
          None \<Rightarrow> Inl FormatError
        | Some hdr \<Rightarrow>
            if magic hdr \<noteq> mpt_magic then Inl FormatError
            else if type hdr \<noteq> MPT_TYPE_MPF then Inl FormatError
            else if sint (expn hdr) < 0 then Inl FormatError
            else (case base_setup b start_pos of
              None \<Rightarrow> Inl OpenUndefined
            | Some (digits_per_limb, e, m, sp) \<Rightarrow>
                Inr (zero_reader\<lparr>f := Some fl, fpos := 7, h := hdr, base2_exp := e,
                       base2_mask := m, base := b, buf_len := 0, buf_pos := 0,
                       pos := limb_offset hdr sp digits_per_limb\<rparr>,
                     sp, digits_per_limb)))))"

text \<open>
  \<^verbatim>\<open>if (s->pos <= 0) goto fail; s->start_digit = start_pos % digits_per_limb;\<close>
  (\<open>smod\<close> is the remainder of C, with the sign of the dividend).
\<close>

definition mpt_reader_open :: "disk_file option \<Rightarrow> int \<Rightarrow> int \<Rightarrow> open_failure + MPTReader" where
  "mpt_reader_open file b start_pos =
     (case open_setup file b start_pos of
        Inl e \<Rightarrow> Inl e
      | Inr (s, sp, digits_per_limb) \<Rightarrow>
          if pos s \<le> 0 then Inl PositionOutOfRangeError
          else Inr (s\<lparr>start_digit := sp smod digits_per_limb\<rparr>))"

subsection \<open>Refilling the buffer\<close>

text \<open>
  \<^verbatim>\<open>fseeko(s->f, MPT_DISK_HEADER_SIZE + s->pos * sizeof(uint64_t), SEEK_SET)\<close>: the
  offset is computed in \<^verbatim>\<open>size_t\<close>, modulo \<open>2^64\<close>, and passed as a signed 64-bit
  \<^verbatim>\<open>off_t\<close>. From \<open>2^63\<close> on it is negative there: the seek fails, the code does not
  look at its result, and the stream stays where it is. The result is the position of
  the stream after the call, in words.
\<close>

definition file_seek :: "nat \<Rightarrow> int \<Rightarrow> nat" where
  "file_seek fp p =
     (let off = (MPT_DISK_HEADER_SIZE + p * 8) mod 2 ^ 64 in
      if off < 2 ^ 63 then nat (off div 8) else fp)"

text \<open>
  \<^verbatim>\<open>fread(s->buf, 1, len * sizeof(uint64_t), s->f) != len * sizeof(uint64_t)\<close> with the
  stream at word \<open>fp\<close>: the byte count is computed in \<^verbatim>\<open>size_t\<close>, so \<open>m\<close> words are
  asked for; \<open>got\<close> are there. The buffer has room for \<^verbatim>\<open>MPT_MAX_BUF_LEN\<close> words:
  storing more is \<open>Undefined\<close>. Otherwise \<open>Inr\<close> the \<open>m\<close> words when the file holds
  them, \<open>Inl Abort\<close> when the read is short (the caller then calls \<^verbatim>\<open>abort()\<close>).
\<close>

definition file_read :: "disk_file \<Rightarrow> nat \<Rightarrow> int \<Rightarrow> fault + 64 word list" where
  "file_read fl fp n =
     (let m = (n * 8) mod 2 ^ 64 div 8;
          got = min m (max 0 (int (length (words fl)) - int fp))
      in if MPT_MAX_BUF_LEN < got then Inl Undefined
         else if got < m then Inl Abort
         else Inr (take (nat m) (drop fp (words fl))))"

definition mpt_reader_fill :: "MPTReader \<Rightarrow> fault + (int \<times> MPTReader)" where
  "mpt_reader_fill s =
     (let n = min_int64 (pos s) MPT_MAX_BUF_LEN in
      if n = 0 then Inr (- 1, s)
      else
        let s1 = s\<lparr>pos := pos s - n\<rparr> in
        (case f s1 of
           None \<Rightarrow> Inl Undefined
         | Some fl \<Rightarrow>
             let fp = file_seek (fpos s1) (pos s1) in
             (case file_read fl fp n of
                Inl e \<Rightarrow> Inl e
              | Inr limbs \<Rightarrow>
                  Inr (0, s1\<lparr>fpos := fp + length limbs,
                             buf := limbs @ drop (length limbs) (buf s1),
                             buf_len := n, buf_pos := n\<rparr>))))"

subsection \<open>Digits\<close>

text \<open>
  \<^verbatim>\<open>for(i = 0; i < BASE10_EXP; i++) { s->cur_limb10[i] = a % 10; a /= 10; }\<close>:
  the array after \<open>n\<close> rounds of the loop, index 0 first.
\<close>

fun extract10 :: "nat \<Rightarrow> 64 word \<Rightarrow> 8 word list" where
  "extract10 0 a = []"
| "extract10 (Suc n) a = ucast (a mod 10) # extract10 n (a div 10)"

text \<open>
  The statements both branches of \<^verbatim>\<open>mpt_reader_get_digit\<close> start with when
  \<^verbatim>\<open>cur_digit\<close> is 0: refill when \<^verbatim>\<open>buf_pos\<close> is 0 (\<open>None\<close>: the refill returned
  non-zero and the caller returns -1), decrement \<^verbatim>\<open>buf_pos\<close>, read \<^verbatim>\<open>buf[buf_pos]\<close>.
\<close>

definition fetch_limb :: "MPTReader \<Rightarrow> fault + (64 word option \<times> MPTReader)" where
  "fetch_limb s =
     (case (if buf_pos s = 0 then mpt_reader_fill s else Inr (0, s)) of
        Inl e \<Rightarrow> Inl e
      | Inr (r, s1) \<Rightarrow>
          if r \<noteq> 0 then Inr (None, s1)
          else
            let s2 = s1\<lparr>buf_pos := buf_pos s1 - 1\<rparr> in
            if 0 \<le> buf_pos s2 \<and> nat (buf_pos s2) < length (buf s2)
            then Inr (Some (buf s2 ! nat (buf_pos s2)), s2)
            else Inl Undefined)"

text \<open>\<^verbatim>\<open>s->cur_digit--; return s->cur_limb10[s->cur_digit];\<close>\<close>

definition emit10 :: "MPTReader \<Rightarrow> fault + (int \<times> MPTReader)" where
  "emit10 s =
     (let s1 = s\<lparr>cur_digit := cur_digit s - 1\<rparr> in
      if 0 \<le> cur_digit s1 \<and> nat (cur_digit s1) < length (cur_limb10 s1)
      then Inr (uint (cur_limb10 s1 ! nat (cur_digit s1)), s1)
      else Inl Undefined)"

text \<open>
  \<^verbatim>\<open>(limb >> shift) & mask\<close>, a 64-bit value, returned as an \<^verbatim>\<open>int\<close>.
\<close>

definition digit2 :: "int \<Rightarrow> 64 word \<Rightarrow> nat \<Rightarrow> int" where
  "digit2 m a sh = sint (ucast (drop_bit sh a AND word_of_int m) :: 32 word)"

text \<open>
  \<^verbatim>\<open>s->cur_digit -= s->base2_exp; return (s->cur_limb2 >> s->cur_digit) & s->base2_mask;\<close>
\<close>

definition emit2 :: "MPTReader \<Rightarrow> fault + (int \<times> MPTReader)" where
  "emit2 s =
     (let s1 = s\<lparr>cur_digit := cur_digit s - base2_exp s\<rparr> in
      if 0 \<le> cur_digit s1 \<and> cur_digit s1 < 64
      then Inr (digit2 (base2_mask s1) (cur_limb2 s1) (nat (cur_digit s1)), s1)
      else Inl Undefined)"

definition mpt_reader_get_digit :: "MPTReader \<Rightarrow> fault + (int \<times> MPTReader)" where
  "mpt_reader_get_digit s =
     (if base s = 10 then
        (if cur_digit s = 0 then
           (case fetch_limb s of
              Inl e \<Rightarrow> Inl e
            | Inr (None, s1) \<Rightarrow> Inr (- 1, s1)
            | Inr (Some a, s1) \<Rightarrow>
                emit10 (s1\<lparr>cur_limb10 := extract10 (nat BASE10_EXP) a,
                          cur_digit := BASE10_EXP - start_digit s1,
                          start_digit := 0\<rparr>))
         else emit10 s)
      else
        (if cur_digit s = 0 then
           (case fetch_limb s of
              Inl e \<Rightarrow> Inl e
            | Inr (None, s1) \<Rightarrow> Inr (- 1, s1)
            | Inr (Some a, s1) \<Rightarrow>
                emit2 (s1\<lparr>cur_limb2 := a,
                         cur_digit := 64 - start_digit s1,
                         start_digit := 0\<rparr>))
         else emit2 s))"

text \<open>\<^verbatim>\<open>mpt_reader_getc\<close>: the digit as a character code, \<open>'0'\<close> = 48 and \<open>'A'\<close> = 65.\<close>

definition mpt_reader_getc :: "MPTReader \<Rightarrow> fault + (int \<times> MPTReader)" where
  "mpt_reader_getc s =
     (case mpt_reader_get_digit s of
        Inl e \<Rightarrow> Inl e
      | Inr (c, s1) \<Rightarrow>
          if c < 0 then Inr (c, s1)
          else if c < 10 then Inr (c + 48, s1)
          else Inr (c + (65 - 10), s1))"

text \<open>
  Pulling up to \<open>k\<close> values with \<open>step\<close>, stopping at the first negative one, as the loop
  of \<^verbatim>\<open>dump_digits\<close> does with \<^verbatim>\<open>mpt_reader_getc\<close> (\<^verbatim>\<open>if (c < 0) break;\<close>).
\<close>

fun pull :: "(MPTReader \<Rightarrow> fault + (int \<times> MPTReader)) \<Rightarrow> nat \<Rightarrow> MPTReader
    \<Rightarrow> fault + (int list \<times> MPTReader)" where
  "pull step 0 s = Inr ([], s)"
| "pull step (Suc k) s =
     (case step s of
        Inl e \<Rightarrow> Inl e
      | Inr (c, s1) \<Rightarrow>
          if c < 0 then Inr ([], s1)
          else (case pull step k s1 of
                  Inl e \<Rightarrow> Inl e
                | Inr (cs, s2) \<Rightarrow> Inr (c # cs, s2)))"

definition get_digits :: "nat \<Rightarrow> MPTReader \<Rightarrow> fault + (int list \<times> MPTReader)" where
  "get_digits = pull mpt_reader_get_digit"

definition get_chars :: "nat \<Rightarrow> MPTReader \<Rightarrow> fault + (int list \<times> MPTReader)" where
  "get_chars = pull mpt_reader_getc"

definition open_pull :: "(MPTReader \<Rightarrow> fault + (int \<times> MPTReader)) \<Rightarrow> disk_file option
    \<Rightarrow> int \<Rightarrow> int \<Rightarrow> nat \<Rightarrow> open_failure + (fault + int list)" where
  "open_pull step file b start_pos k =
     (case mpt_reader_open file b start_pos of
        Inl e \<Rightarrow> Inl e
      | Inr s \<Rightarrow> Inr (case pull step k s of
                      Inl e \<Rightarrow> Inl e
                    | Inr (cs, s1) \<Rightarrow> Inr cs))"

subsection \<open>Closing\<close>

text \<open>
  \<^verbatim>\<open>mpt_reader_close\<close> is \<^verbatim>\<open>if (s->f) fclose(s->f); free(s->buf); free(s);\<close>.
  What it releases is not visible on the record \<open>MPTReader\<close>, so the resources get a
  store of their own: the live blocks of \<^verbatim>\<open>malloc\<close>, the open streams, and for the
  address of a reader the two pointers \<^verbatim>\<open>f\<close> and \<^verbatim>\<open>buf\<close> it holds. Addresses are
  natural numbers and 0 is the null pointer. Reading a field of a block that is not
  live, closing a stream that is not open and freeing a block that is not live are
  undefined in C.
\<close>

record store =
  allocated :: "nat set"
  opened :: "nat set"
  ptrs :: "nat \<Rightarrow> nat \<times> nat"

definition mpt_reader_close :: "store \<Rightarrow> nat \<Rightarrow> fault + store" where
  "mpt_reader_close st s =
     (if s \<notin> allocated st then Inl Undefined
      else
        let (fp, bp) = ptrs st s in
        if fp \<noteq> 0 \<and> fp \<notin> opened st then Inl Undefined
        else
          let st1 = (if fp \<noteq> 0 then st\<lparr>opened := opened st - {fp}\<rparr> else st) in
          if bp \<noteq> 0 \<and> bp \<notin> allocated st1 then Inl Undefined
          else
            let st2 = (if bp \<noteq> 0 then st1\<lparr>allocated := allocated st1 - {bp}\<rparr> else st1) in
            if s \<notin> allocated st2 then Inl Undefined
            else Inr (st2\<lparr>allocated := allocated st2 - {s}\<rparr>))"

definition close_twice :: "store \<Rightarrow> nat \<Rightarrow> fault + store" where
  "close_twice st s =
     (case mpt_reader_close st s of
        Inl e \<Rightarrow> Inl e
      | Inr st1 \<Rightarrow> mpt_reader_close st1 s)"

subsection \<open>What every reachable reader satisfies\<close>

text \<open>
  The invariant used in the proofs below: \<^verbatim>\<open>mpt_reader_open\<close> establishes it and
  \<^verbatim>\<open>mpt_reader_fill\<close> and \<^verbatim>\<open>mpt_reader_get_digit\<close> maintain it. \<open>digits_bound\<close>
  bounds the number of digits a reader can still produce.
\<close>

definition reader_inv :: "MPTReader \<Rightarrow> bool" where
  "reader_inv s \<longleftrightarrow>
     0 \<le> buf_pos s \<and> buf_pos s \<le> buf_len s \<and> buf_len s \<le> MPT_MAX_BUF_LEN
     \<and> 0 \<le> pos s \<and> 0 \<le> cur_digit s
     \<and> (\<forall>d\<in>set (cur_limb10 s). uint d < 10)
     \<and> (base s = 10 \<or> base s = 2 \<and> base2_exp s = 1 \<and> base2_mask s = 1
        \<or> base s = 16 \<and> base2_exp s = 4 \<and> base2_mask s = 15)"

text \<open>
  The part of it that concerns the buffer, and what is needed on top of it for
  \<^verbatim>\<open>mpt_reader_get_digit\<close> to stay inside its arrays: the cursor in the current limb
  and the digits to skip lie within one limb, on a digit boundary.
\<close>

definition buffer_inv :: "MPTReader \<Rightarrow> bool" where
  "buffer_inv s \<longleftrightarrow>
     0 \<le> buf_pos s \<and> buf_pos s \<le> buf_len s \<and> buf_len s \<le> MPT_MAX_BUF_LEN \<and> 0 \<le> pos s"

definition cursor_inv :: "MPTReader \<Rightarrow> bool" where
  "cursor_inv s \<longleftrightarrow>
     f s \<noteq> None \<and> length (cur_limb10 s) = 19 \<and> nat (buf_pos s) \<le> length (buf s)
     \<and> cur_digit s \<le> (if base s = 10 then 19 else 64)
     \<and> (if base s = 10 then 1 else base2_exp s) dvd cur_digit s
     \<and> 0 \<le> start_digit s \<and> start_digit s < (if base s = 10 then 19 else 64)
     \<and> (if base s = 10 then 1 else base2_exp s) dvd start_digit s"

definition digits_bound :: "MPTReader \<Rightarrow> int" where
  "digits_bound s = cur_digit s + (if base s = 10 then 19 else 64) * (buf_pos s + pos s)
     + max 0 (- start_digit s)"

subsection \<open>The digit stream of a file\<close>

text \<open>
  The functions of this subsection are not in the source: they say which digits a
  file holds, and which digits a reader has yet to produce, for the proof that
  streams opened at different positions agree. None of them occurs in the statement
  of one of the theorems C1 to C10.
\<close>

text \<open>
  The digits of one limb in base \<open>b\<close>, least significant first (\<open>limb_lsd\<close>) and most
  significant first (\<open>limb_digits\<close>): the 19 decimal digits that \<open>extract10\<close> gives,
  or the 64 bits, or the 16 groups of 4 bits.
\<close>

definition limb_lsd :: "int \<Rightarrow> 64 word \<Rightarrow> int list" where
  "limb_lsd b a =
     (if b = 10 then map uint (extract10 19 a)
      else if b = 2 then map (\<lambda>i. digit2 1 a i) [0..<64]
      else map (\<lambda>i. digit2 15 a (4 * i)) [0..<16])"

definition limb_digits :: "int \<Rightarrow> 64 word \<Rightarrow> int list" where
  "limb_digits b a = rev (limb_lsd b a)"

text \<open>
  The digits of the fraction of the stored number: those of the limbs below the
  \<open>expn\<close> integer limbs, the limb of highest index first.
\<close>

definition fraction_digits :: "int \<Rightarrow> mpt_disk_header_t \<Rightarrow> disk_file \<Rightarrow> int list" where
  "fraction_digits b hdr fl =
     concat (map (limb_digits b)
       (rev (take (nat (uint (len hdr) - sint (expn hdr))) (body fl))))"

text \<open>
  The limbs a reader has not decoded yet, in the order in which it will decode them:
  the buffer below the cursor, downwards, then the file below the position, downwards.
\<close>

definition pending :: "disk_file \<Rightarrow> MPTReader \<Rightarrow> 64 word list" where
  "pending fl s = rev (take (nat (buf_pos s)) (buf s)) @ rev (take (nat (pos s)) (body fl))"

text \<open>
  The digits of the limb being decoded (\<open>cur_lsd\<close>, least significant first), the
  units of \<^verbatim>\<open>cur_digit\<close> per digit and per limb, and the digits that the reader has yet
  to produce: what is left of the current limb, then the pending limbs without the
  digits that \<^verbatim>\<open>start_digit\<close> skips.
\<close>

definition cur_lsd :: "MPTReader \<Rightarrow> int list" where
  "cur_lsd s =
     (if base s = 10 then map uint (cur_limb10 s)
      else if base s = 2 then map (\<lambda>i. digit2 1 (cur_limb2 s) i) [0..<64]
      else map (\<lambda>i. digit2 15 (cur_limb2 s) (4 * i)) [0..<16])"

definition digit_bits :: "MPTReader \<Rightarrow> int" where
  "digit_bits s = (if base s = 10 then 1 else base2_exp s)"

definition limb_bits :: "MPTReader \<Rightarrow> int" where
  "limb_bits s = (if base s = 10 then 19 else 64)"

definition rest :: "disk_file \<Rightarrow> MPTReader \<Rightarrow> int list" where
  "rest fl s =
     rev (take (nat (cur_digit s div digit_bits s)) (cur_lsd s))
     @ drop (nat (start_digit s div digit_bits s))
         (concat (map (limb_digits (base s)) (pending fl s)))"

text \<open>
  What holds of a reader on a file that holds all the limbs below the position: on
  such readers \<^verbatim>\<open>mpt_reader_get_digit\<close> produces the head of \<open>rest\<close> and leaves its tail.
\<close>

definition stream_inv :: "disk_file \<Rightarrow> MPTReader \<Rightarrow> bool" where
  "stream_inv fl s \<longleftrightarrow>
     f s = Some fl
     \<and> (base s = 10 \<and> length (cur_limb10 s) = 19
        \<or> base s = 2 \<and> base2_exp s = 1 \<and> base2_mask s = 1
        \<or> base s = 16 \<and> base2_exp s = 4 \<and> base2_mask s = 15)
     \<and> 0 \<le> buf_pos s \<and> nat (buf_pos s) \<le> length (buf s)
     \<and> 0 \<le> pos s \<and> pos s \<le> int (length (body fl))
     \<and> MPT_DISK_HEADER_SIZE + 8 * int (length (body fl)) < 2 ^ 63
     \<and> 0 \<le> cur_digit s \<and> cur_digit s \<le> limb_bits s \<and> digit_bits s dvd cur_digit s
     \<and> 0 \<le> start_digit s \<and> start_digit s < limb_bits s \<and> digit_bits s dvd start_digit s
     \<and> (start_digit s \<noteq> 0 \<longrightarrow> cur_digit s = 0)"

text \<open>The reader after a successful refill, and readers that differ in the buffer only.\<close>

definition loaded :: "disk_file \<Rightarrow> MPTReader \<Rightarrow> MPTReader" where
  "loaded fl s =
     s\<lparr>pos := pos s - min (pos s) MPT_MAX_BUF_LEN,
       fpos := 512 + nat (pos s),
       buf := take (nat (min (pos s) MPT_MAX_BUF_LEN))
                (drop (nat (pos s - min (pos s) MPT_MAX_BUF_LEN)) (body fl))
              @ drop (nat (min (pos s) MPT_MAX_BUF_LEN)) (buf s),
       buf_len := min (pos s) MPT_MAX_BUF_LEN, buf_pos := min (pos s) MPT_MAX_BUF_LEN\<rparr>"

definition same_cursor :: "MPTReader \<Rightarrow> MPTReader \<Rightarrow> bool" where
  "same_cursor s s1 \<longleftrightarrow>
     f s1 = f s \<and> base s1 = base s \<and> base2_exp s1 = base2_exp s
     \<and> base2_mask s1 = base2_mask s \<and> cur_digit s1 = cur_digit s
     \<and> start_digit s1 = start_digit s \<and> cur_limb10 s1 = cur_limb10 s
     \<and> cur_limb2 s1 = cur_limb2 s"

definition digits_per_limb :: "int \<Rightarrow> nat" where
  "digits_per_limb b = (if b = 10 then 19 else if b = 2 then 64 else 16)"

subsection \<open>Example files\<close>

text \<open>
  The 512 words of the header region of a file with header \<open>hdr\<close>, as a little-endian
  host reads them: the magic, the six fields, and zeros up to byte 4096. \<open>mpt_file\<close>
  is the file with that header region and the given limbs.
\<close>

definition header_region :: "mpt_disk_header_t \<Rightarrow> 64 word list" where
  "header_region hdr =
     [0x454C49460154504D, len hdr, allocated_len hdr, type hdr, negative hdr, hbase hdr,
      expn hdr] @ replicate 505 0"

definition mpt_file :: "mpt_disk_header_t \<Rightarrow> 64 word list \<Rightarrow> disk_file" where
  "mpt_file hdr limbs = \<lparr>header = Some hdr, words = header_region hdr @ limbs\<rparr>"

text \<open>One limb, no integer part: the value \<open>0.3141592653589793238\<close> in base \<open>10^19\<close>.\<close>

definition pi_header :: mpt_disk_header_t where
  "pi_header = \<lparr>magic = mpt_magic, len = 1, allocated_len = 1, type = MPT_TYPE_MPF,
     negative = 0, hbase = 0, expn = 0\<rparr>"

definition pi_file :: disk_file where
  "pi_file = mpt_file pi_header [3141592653589793238]"

text \<open>
  The reader that base 10 and start position 0 open on \<open>pi_file\<close>, and the same
  reader after its 19 digits.
\<close>

definition pi_reader :: MPTReader where
  "pi_reader = zero_reader\<lparr>f := Some pi_file, fpos := 7, h := pi_header, base := 10, pos := 1\<rparr>"


text \<open>Two limbs: the value \<open>0.31415926535897932384626433832795028841\<close>.\<close>

definition two_header :: mpt_disk_header_t where
  "two_header = \<lparr>magic = mpt_magic, len = 2, allocated_len = 2, type = MPT_TYPE_MPF,
     negative = 0, hbase = 0, expn = 0\<rparr>"

definition two_file :: disk_file where
  "two_file = mpt_file two_header [4626433832795028841, 3141592653589793238]"

text \<open>The header of \<open>pi_file\<close> on a file that ends before its first limb.\<close>

definition short_file :: disk_file where
  "short_file = mpt_file pi_header []"


text \<open>
  A file of \<open>2^20 + 1\<close> equal limbs, one more than the buffer holds, with the reader
  that base 10 and start position 0 open on it, the reader after its first refill,
  after its first digit, and after a refill from there.
\<close>

definition big_header :: mpt_disk_header_t where
  "big_header = \<lparr>magic = mpt_magic, len = 1048577, allocated_len = 1048577,
     type = MPT_TYPE_MPF, negative = 0, hbase = 0, expn = 0\<rparr>"

definition big_file :: disk_file where
  "big_file = mpt_file big_header (replicate 1048577 3141592653589793238)"

definition big_reader :: MPTReader where
  "big_reader = zero_reader\<lparr>f := Some big_file, fpos := 7, h := big_header, base := 10,
     pos := 1048577\<rparr>"

definition big_loaded :: MPTReader where
  "big_loaded = big_reader\<lparr>pos := 1, fpos := 1049089,
     buf := replicate 1048576 3141592653589793238,
     buf_len := 1048576, buf_pos := 1048576\<rparr>"

definition big_next :: MPTReader where
  "big_next = big_loaded\<lparr>buf_pos := 1048575,
     cur_limb10 := extract10 19 3141592653589793238, cur_digit := 18\<rparr>"

definition big_last :: MPTReader where
  "big_last = big_next\<lparr>pos := 0, fpos := 513,
     buf := 3141592653589793238 # replicate 1048575 3141592653589793238,
     buf_len := 1, buf_pos := 1\<rparr>"

text \<open>
  A header that announces \<open>2^61 + 2^20\<close> limbs on a file of \<open>2^21\<close> limbs, the first
  \<open>2^20\<close> of them 1 and the others 2; the reader that base 10 and start position 0
  open on it, the reader after its first refill, the same reader when the limbs of
  that load are used up, and the reader after the refill that follows.
\<close>

definition far_header :: mpt_disk_header_t where
  "far_header = \<lparr>magic = mpt_magic, len = 2305843009214742528,
     allocated_len = 2305843009214742528, type = MPT_TYPE_MPF, negative = 0, hbase = 0,
     expn = 0\<rparr>"

definition far_file :: disk_file where
  "far_file = mpt_file far_header (replicate 1048576 1 @ replicate 1048576 2)"

definition far_reader :: MPTReader where
  "far_reader = zero_reader\<lparr>f := Some far_file, fpos := 7, h := far_header, base := 10,
     pos := 2305843009214742528\<rparr>"

definition far_loaded :: MPTReader where
  "far_loaded = far_reader\<lparr>pos := 2305843009213693952, fpos := 1049088,
     buf := replicate 1048576 1, buf_len := 1048576, buf_pos := 1048576\<rparr>"

definition far_used :: MPTReader where
  "far_used = far_loaded\<lparr>buf_pos := 0, cur_limb10 := extract10 19 1\<rparr>"

definition far_next :: MPTReader where
  "far_next = far_used\<lparr>pos := 2305843009212645376, fpos := 2097664,
     buf := replicate 1048576 2, buf_len := 1048576, buf_pos := 1048576\<rparr>"

text \<open>A header whose exponent is the largest \<^verbatim>\<open>int64_t\<close>, on a file without limbs.\<close>

definition wrap_header :: mpt_disk_header_t where
  "wrap_header = \<lparr>magic = mpt_magic, len = 0, allocated_len = 0, type = MPT_TYPE_MPF,
     negative = 0, hbase = 0, expn = 0x7FFFFFFFFFFFFFFF\<rparr>"

definition wrap_file :: disk_file where
  "wrap_file = mpt_file wrap_header []"

text \<open>A header that announces no limb, on a file without limbs.\<close>

definition empty_header :: mpt_disk_header_t where
  "empty_header = \<lparr>magic = mpt_magic, len = 0, allocated_len = 0, type = MPT_TYPE_MPF,
     negative = 0, hbase = 0, expn = 0\<rparr>"

definition empty_file :: disk_file where
  "empty_file = mpt_file empty_header []"

text \<open>A reader at address 1 that holds the stream 3 and the buffer 2.\<close>

definition open_store :: store where
  "open_store = \<lparr>allocated = {1, 2}, opened = {3}, ptrs = (\<lambda>a. (3, 2))\<rparr>"

text \<open>
  The reader at address 1 when \<^verbatim>\<open>fopen\<close> has failed in \<^verbatim>\<open>mpt_reader_open\<close>: both
  pointers are still null.
\<close>

definition failed_store :: store where
  "failed_store = \<lparr>allocated = {1}, opened = {}, ptrs = (\<lambda>a. (0, 0))\<rparr>"

section \<open>Properties\<close>

declare base2_exp_loop.simps [simp del]

subsection \<open>Seeking and reading\<close>

lemma length_body: "int (length (body fl)) = max 0 (int (length (words fl)) - 512)"
  by (simp add: body_def MPT_DISK_HEADER_SIZE_def)

lemma drop_words: "drop (512 + k) (words fl) = drop k (body fl)"
  by (simp add: body_def MPT_DISK_HEADER_SIZE_def add.commute)

lemma length_header_region [simp]: "length (header_region hdr) = 512"
  by (simp add: header_region_def)

lemma mpt_file_simps [simp]:
  "header (mpt_file hdr limbs) = Some hdr"
  "words (mpt_file hdr limbs) = header_region hdr @ limbs"
  "body (mpt_file hdr limbs) = limbs"
  by (simp_all add: mpt_file_def body_def MPT_DISK_HEADER_SIZE_def)

lemma requested_words:
  assumes "0 \<le> n" "n \<le> MPT_MAX_BUF_LEN"
  shows "n * 8 mod 2 ^ 64 div 8 = n"
proof -
  from assms have "n * 8 < 2 ^ 64"
    by (simp add: MPT_MAX_BUF_LEN_def)
  with assms(1) have "n * 8 mod 2 ^ 64 = n * 8"
    by simp
  then show ?thesis
    by simp
qed

lemma file_seek_ok:
  assumes "0 \<le> p" "MPT_DISK_HEADER_SIZE + p * 8 < 2 ^ 63"
  shows "file_seek fp p = 512 + nat p"
proof -
  from assms have "(MPT_DISK_HEADER_SIZE + p * 8) mod 2 ^ 64 = 4096 + p * 8"
    by (simp add: MPT_DISK_HEADER_SIZE_def)
  moreover have "(4096 + p * 8) div 8 = 512 + p"
    by simp
  ultimately show ?thesis
    using assms by (simp add: file_seek_def Let_def MPT_DISK_HEADER_SIZE_def nat_add_distrib)
qed

lemma file_read_cases:
  assumes "0 < n" "n \<le> MPT_MAX_BUF_LEN"
  shows "file_read fl fp n =
     (if int fp + n \<le> int (length (words fl))
      then Inr (take (nat n) (drop fp (words fl))) else Inl Abort)"
proof -
  have m: "n * 8 mod 2 ^ 64 div 8 = n"
    using assms by (intro requested_words) simp_all
  show ?thesis
    unfolding file_read_def m Let_def using assms
    by (auto simp: min_def max_def)
qed

lemma file_read_Inr:
  assumes "file_read fl fp n = Inr limbs" "0 < n" "n \<le> MPT_MAX_BUF_LEN"
  shows "int fp + n \<le> int (length (words fl)) \<and> limbs = take (nat n) (drop fp (words fl))
     \<and> length limbs = nat n"
  using assms(1) unfolding file_read_cases [OF assms(2,3)]
  by (auto split: if_splits)

subsection \<open>The base check\<close>

text \<open>
  C2, as the specification states it, has \<^verbatim>\<open>mpt_reader_open\<close> accept the bases
  10, 2, 4, 8 and 16. The first statement of the function is
  \<^verbatim>\<open>if (base != 10 && base != 2 && base != 16) return NULL;\<close>: the bases 4 and 8 are
  refused.
\<close>

theorem open_base_4_refused:
  "mpt_reader_open (Some pi_file) 4 0 = Inl UnsupportedBaseError
   \<and> mpt_reader_open (Some pi_file) 8 0 = Inl UnsupportedBaseError"
  by (simp add: mpt_reader_open_def open_setup_def)

text \<open>
  C2, amended: for every file and start position, \<^verbatim>\<open>mpt_reader_open\<close> fails on its
  base check exactly when the base is not one of 10, 2 and 16.
\<close>

theorem open_base_check:
  "mpt_reader_open file b start_pos = Inl UnsupportedBaseError \<longleftrightarrow> b \<notin> {10, 2, 16}"
  by (auto simp: mpt_reader_open_def open_setup_def split: option.splits prod.splits)

theorem open_base_check_witness:
  "mpt_reader_open (Some pi_file) 16 0 \<noteq> Inl UnsupportedBaseError
   \<and> mpt_reader_open (Some pi_file) 8 0 = Inl UnsupportedBaseError"
  using open_base_check [of "Some pi_file" 16 0] open_base_check [of "Some pi_file" 8 0]
  by simp

subsection \<open>The decimal digits of a limb\<close>

lemma uint_ucast_mod10: "uint (ucast ((a::64 word) mod 10) :: 8 word) = uint a mod 10"
proof -
  have "uint (a mod 10) = uint a mod 10"
    by (simp add: uint_mod)
  moreover have "uint a mod 10 < 256" "0 \<le> uint a mod 10"
    using pos_mod_bound [of 10 "uint a"] by simp_all
  ultimately show ?thesis
    by (simp add: unsigned_ucast_eq take_bit_eq_mod)
qed

lemma extract10_sum: "(\<Sum>i<n. uint (extract10 n a ! i) * 10 ^ i) = uint a mod 10 ^ n"
proof (induction n arbitrary: a)
  case 0
  show ?case by simp
next
  case (Suc n)
  have "(\<Sum>i<Suc n. uint (extract10 (Suc n) a ! i) * 10 ^ i)
      = uint a mod 10 + 10 * (\<Sum>i<n. uint (extract10 n (a div 10) ! i) * 10 ^ i)"
    by (simp add: sum.lessThan_Suc_shift uint_ucast_mod10 sum_distrib_left mult_ac
        del: sum.lessThan_Suc)
  also have "\<dots> = uint a mod 10 + 10 * ((uint a div 10) mod 10 ^ n)"
    by (simp add: Suc.IH uint_div)
  also have "\<dots> = uint a mod 10 ^ Suc n"
    using zmod_zmult2_eq [of "10 ^ n" "uint a" 10] by simp
  finally show ?case .
qed

lemma length_extract10 [simp]: "length (extract10 n a) = n"
  by (induction n arbitrary: a) simp_all

text \<open>
  C3, as the specification states it: every 64-bit limb fits 19 decimal digits, so the
  19 digits that \<^verbatim>\<open>mpt_reader_get_digit\<close> extracts add up to the limb. The limb
  \<open>10^19\<close> is below \<open>2^64\<close> and has 20 digits; its 19 extracted digits are all 0.
\<close>

theorem base10_limb_20_digits:
  "\<not> uint (10 ^ 19 :: 64 word) < 10 ^ 19
   \<and> (\<Sum>i<19. uint (extract10 19 (10 ^ 19) ! i) * 10 ^ i) \<noteq> uint (10 ^ 19 :: 64 word)"
  by (simp add: extract10_sum)

text \<open>
  C3, amended: the 19 extracted digits add up to the limb modulo \<open>10^19\<close>; they add up
  to the limb itself, and no digit is lost, for every limb below \<open>10^19\<close>.
\<close>

theorem base10_limb_digits:
  "(\<Sum>i<19. uint (extract10 (nat BASE10_EXP) a ! i) * 10 ^ i) = uint a mod 10 ^ 19
   \<and> (uint a < 10 ^ 19 \<longrightarrow>
        (\<Sum>i<19. uint (extract10 (nat BASE10_EXP) a ! i) * 10 ^ i) = uint a)"
  by (simp add: BASE10_EXP_def extract10_sum)

theorem base10_limb_digits_witness:
  "uint (3141592653589793238 :: 64 word) < 10 ^ 19
   \<and> (\<Sum>i<19. uint (extract10 (nat BASE10_EXP) 3141592653589793238 ! i) * 10 ^ i)
       = uint (3141592653589793238 :: 64 word)"
  using base10_limb_digits [of 3141592653589793238] by simp

subsection \<open>A concrete extraction\<close>

text \<open>
  C5: on the file with \<open>len = 1\<close>, \<open>expn = 0\<close> and the single limb
  \<open>3141592653589793238\<close>, opening in base 10 at start position 0 and pulling five
  characters with \<^verbatim>\<open>mpt_reader_getc\<close> gives \<open>31415\<close>.
\<close>

theorem pi_first_five_chars:
  "map_sum id (map_sum id (map char_of)) (open_pull mpt_reader_getc (Some pi_file) 10 0 5)
     = Inr (Inr ''31415'')"
  by code_simp

subsection \<open>Short reads\<close>





subsection \<open>Closing twice\<close>

text \<open>
  C7, as the specification states it: a second \<^verbatim>\<open>mpt_reader_close\<close> on the same
  reader is a safe no-op. The function ends with \<^verbatim>\<open>free(s)\<close> and clears no pointer:
  the second call reads \<^verbatim>\<open>s->f\<close> in a block that is no longer live.
\<close>

theorem close_twice_undefined:
  "close_twice open_store 1 = Inl Undefined"
  by (simp add: close_twice_def mpt_reader_close_def open_store_def)

text \<open>
  C7, amended: one call of \<^verbatim>\<open>mpt_reader_close\<close> on a live reader whose stream is null
  or open and whose buffer is null or live (the reader of a failed open included)
  releases the stream, the buffer and the reader without fault; a second call on the
  same reader is undefined.
\<close>

theorem close_once:
  assumes "s \<in> allocated st" and "ptrs st s = (fp, bp)"
    and "fp = 0 \<or> fp \<in> opened st"
    and "bp = 0 \<or> bp \<in> allocated st \<and> bp \<noteq> s"
  shows "mpt_reader_close st s =
           Inr (st\<lparr>opened := opened st - (if fp = 0 then {} else {fp}),
                   allocated := allocated st - (if bp = 0 then {} else {bp}) - {s}\<rparr>)
    \<and> close_twice st s = Inl Undefined"
  using assms
  by (auto simp: close_twice_def mpt_reader_close_def)

theorem close_once_witness:
  "mpt_reader_close open_store 1 = Inr \<lparr>allocated = {}, opened = {}, ptrs = (\<lambda>a. (3, 2))\<rparr>
   \<and> close_twice open_store 1 = Inl Undefined
   \<and> mpt_reader_close failed_store 1 = Inr \<lparr>allocated = {}, opened = {}, ptrs = (\<lambda>a. (0, 0))\<rparr>
   \<and> close_twice failed_store 1 = Inl Undefined"
proof -
  have a: "1 \<in> allocated open_store" "ptrs open_store 1 = (3, 2)"
    "3 = 0 \<or> 3 \<in> opened open_store" "2 = 0 \<or> 2 \<in> allocated open_store \<and> 2 \<noteq> (1::nat)"
    by (simp_all add: open_store_def)
  have b: "1 \<in> allocated failed_store" "ptrs failed_store 1 = (0, 0)"
    "0 = 0 \<or> 0 \<in> opened failed_store" "0 = 0 \<or> 0 \<in> allocated failed_store \<and> 0 \<noteq> (1::nat)"
    by (simp_all add: failed_store_def)
  have "{1, 2} - {2} - {1::nat} = {}"
    by auto
  with close_once [OF a] close_once [OF b] show ?thesis
    by (simp add: open_store_def failed_store_def)
qed

subsection \<open>The invariant of the reader\<close>

lemma base2_exp_loop_2: "base2_exp_loop 2 (Suc 0) = Some 1"
  by (simp add: base2_exp_loop.simps)

lemma base2_exp_loop_16: "base2_exp_loop 16 (Suc 0) = Some 4"
  by code_simp

lemma base_setup_Some:
  assumes "base_setup b p = Some (dpl, e, m, sp)" and "b = 10 \<or> b = 2 \<or> b = 16"
  shows "b = 10 \<and> dpl = 19 \<and> e = 0 \<and> m = 0 \<and> sp = p
       \<or> b = 2 \<and> dpl = 64 \<and> e = 1 \<and> m = 1 \<and> sp = p
       \<or> b = 16 \<and> dpl = 64 \<and> e = 4 \<and> m = 15 \<and> sp = 4 * p"
  using assms
  by (auto simp: base_setup_def base2_exp_loop_2 base2_exp_loop_16 BASE10_EXP_def
      split: if_splits)

lemma open_Inr:
  assumes "mpt_reader_open file b p = Inr s"
  shows "\<exists>fl hdr dpl e m sp. file = Some fl \<and> header fl = Some hdr
     \<and> magic hdr = mpt_magic \<and> type hdr = MPT_TYPE_MPF \<and> 0 \<le> sint (expn hdr)
     \<and> (b = 10 \<or> b = 2 \<or> b = 16)
     \<and> base_setup b p = Some (dpl, e, m, sp)
     \<and> 0 < limb_offset hdr sp dpl
     \<and> s = zero_reader\<lparr>f := Some fl, fpos := 7, h := hdr, base2_exp := e,
                       base2_mask := m, base := b, buf_len := 0, buf_pos := 0,
                       pos := limb_offset hdr sp dpl,
                       start_digit := sp smod dpl\<rparr>"
  using assms
  by (auto simp: mpt_reader_open_def open_setup_def
      split: if_splits option.splits prod.splits sum.splits)

lemma open_inv:
  assumes "mpt_reader_open file b p = Inr s"
  shows "reader_inv s \<and> base s = b \<and> cur_digit s = 0 \<and> buf_pos s = 0 \<and> buf_len s = 0
     \<and> 0 < pos s \<and> f s = file \<and> buf s = [] \<and> - 64 < start_digit s \<and> fpos s = 7"
proof -
  from open_Inr [OF assms] obtain fl hdr dpl e m sp where
    o: "file = Some fl" "b = 10 \<or> b = 2 \<or> b = 16" "base_setup b p = Some (dpl, e, m, sp)"
      "0 < limb_offset hdr sp dpl"
      "s = zero_reader\<lparr>f := Some fl, fpos := 7, h := hdr, base2_exp := e,
                       base2_mask := m, base := b, buf_len := 0, buf_pos := 0,
                       pos := limb_offset hdr sp dpl,
                       start_digit := sp smod dpl\<rparr>"
    by blast
  from base_setup_Some [OF o(3) o(2)] have "dpl = 19 \<or> dpl = 64" by auto
  then have "- 64 < sp smod dpl"
    using smod_int_range [of dpl sp] by auto
  with base_setup_Some [OF o(3) o(2)] o show ?thesis
    by (auto simp: reader_inv_def zero_reader_def MPT_MAX_BUF_LEN_def)
qed

lemma fill_Inr:
  assumes "mpt_reader_fill s = Inr (r, s')" and "0 \<le> pos s"
  shows "pos s = 0 \<and> r = - 1 \<and> s' = s
    \<or> 0 < pos s \<and> r = 0 \<and> (\<exists>fl limbs. f s = Some fl
         \<and> file_read fl (file_seek (fpos s) (pos s - min (pos s) MPT_MAX_BUF_LEN))
               (min (pos s) MPT_MAX_BUF_LEN) = Inr limbs
         \<and> length limbs = nat (min (pos s) MPT_MAX_BUF_LEN)
         \<and> s' = s\<lparr>pos := pos s - min (pos s) MPT_MAX_BUF_LEN,
                  fpos := file_seek (fpos s) (pos s - min (pos s) MPT_MAX_BUF_LEN)
                          + length limbs,
                  buf := limbs @ drop (length limbs) (buf s),
                  buf_len := min (pos s) MPT_MAX_BUF_LEN,
                  buf_pos := min (pos s) MPT_MAX_BUF_LEN\<rparr>)"
proof -
  define n where "n = min (pos s) MPT_MAX_BUF_LEN"
  have m: "min_int64 (pos s) MPT_MAX_BUF_LEN = n"
    by (simp add: min_int64_def min_def n_def)
  show ?thesis
  proof (cases "pos s = 0")
    case True
    with assms(1) show ?thesis
      by (simp add: mpt_reader_fill_def min_int64_def MPT_MAX_BUF_LEN_def)
  next
    case False
    with assms(2) have p: "0 < pos s" by simp
    then have n: "0 < n" "n \<le> MPT_MAX_BUF_LEN"
      by (simp_all add: n_def MPT_MAX_BUF_LEN_def)
    then have n0: "(n = 0) = False" by simp
    from assms(1) obtain fl limbs where
      fl: "f s = Some fl"
      and l: "file_read fl (file_seek (fpos s) (pos s - n)) n = Inr limbs"
      and r: "r = 0" "s' = s\<lparr>pos := pos s - n,
                  fpos := file_seek (fpos s) (pos s - n) + length limbs,
                  buf := limbs @ drop (length limbs) (buf s),
                  buf_len := n, buf_pos := n\<rparr>"
      unfolding mpt_reader_fill_def m Let_def n0
      by (auto split: sum.splits option.splits)
    from file_read_Inr [OF l n] have "length limbs = nat n"
      by blast
    with p fl l r show ?thesis
      unfolding n_def by blast
  qed
qed

lemma list_all_extract10: "\<forall>d\<in>set (extract10 n a). uint d < 10"
  by (induction n arbitrary: a) (simp_all add: uint_ucast_mod10)


lemma sint_small: "uint (x :: 32 word) < 2 ^ 31 \<Longrightarrow> sint x = uint x"
proof -
  assume a: "uint x < 2 ^ 31"
  have "- (2 ^ 31) \<le> uint x"
    by (rule order_trans [of _ 0]) simp_all
  with a have "signed_take_bit 31 (uint x) = uint x"
    by (simp only: signed_take_bit_int_eq_self)
  then show ?thesis by (simp add: sint_uint)
qed

lemma digit2_range:
  assumes "m = 1 \<or> m = 15"
  shows "0 \<le> digit2 m a sh \<and> digit2 m a sh \<le> m"
proof -
  define w where "w = drop_bit sh a AND (word_of_int m :: 64 word)"
  have "w \<le> word_of_int m"
    unfolding w_def by (rule word_and_le1)
  then have "uint w \<le> uint (word_of_int m :: 64 word)"
    by (simp add: word_le_def)
  with assms have le: "uint w \<le> m"
    by auto
  have u: "uint (ucast w :: 32 word) = uint w"
    using le assms by (auto simp: unsigned_ucast_eq take_bit_eq_mod)
  with le assms have "uint (ucast w :: 32 word) < 2 ^ 31"
    by auto
  then have "sint (ucast w :: 32 word) = uint (ucast w :: 32 word)"
    by (rule sint_small)
  with u show ?thesis
    using le by (simp add: digit2_def w_def)
qed

text \<open>What a successful fetch does.\<close>

lemma fetch_limb_Inr:
  assumes "fetch_limb s = Inr (x, s')" and "0 \<le> pos s"
  shows "x = None \<and> s' = s \<and> buf_pos s = 0 \<and> pos s = 0
    \<or> (\<exists>s1. (if buf_pos s = 0 then mpt_reader_fill s = Inr (0, s1) \<and> 0 < pos s else s1 = s)
          \<and> s' = s1\<lparr>buf_pos := buf_pos s1 - 1\<rparr>
          \<and> 0 \<le> buf_pos s1 - 1 \<and> nat (buf_pos s1 - 1) < length (buf s1)
          \<and> x = Some (buf s1 ! nat (buf_pos s1 - 1)))"
proof (cases "buf_pos s = 0")
  case False
  with assms show ?thesis
    by (auto simp: fetch_limb_def Let_def split: if_splits)
next
  case True
  with assms obtain r s1 where fl: "mpt_reader_fill s = Inr (r, s1)"
    by (auto simp: fetch_limb_def split: sum.splits)
  from fill_Inr [OF fl assms(2)] True assms fl show ?thesis
    by (auto simp: fetch_limb_def Let_def split: if_splits)
qed

lemma fill_inv:
  assumes "mpt_reader_fill s = Inr (r, s')" and "buffer_inv s"
  shows "buffer_inv s'"
proof -
  from assms(2) have "0 \<le> pos s"
    by (simp add: buffer_inv_def)
  from fill_Inr [OF assms(1) this] assms(2) show ?thesis
    by (auto simp: buffer_inv_def MPT_MAX_BUF_LEN_def)
qed

lemma fill_fields:
  assumes "mpt_reader_fill s = Inr (r, s')" and "0 \<le> pos s"
  shows "f s' = f s \<and> base s' = base s \<and> base2_exp s' = base2_exp s
    \<and> base2_mask s' = base2_mask s \<and> cur_digit s' = cur_digit s
    \<and> start_digit s' = start_digit s \<and> cur_limb10 s' = cur_limb10 s
    \<and> cur_limb2 s' = cur_limb2 s \<and> h s' = h s
    \<and> 0 \<le> pos s' \<and> pos s' \<le> pos s \<and> (r = 0 \<or> r = - 1)
    \<and> (buf_pos s = 0 \<longrightarrow> buf_pos s' + pos s' = buf_pos s + pos s)
    \<and> (r = 0 \<longrightarrow> 0 < buf_pos s' \<and> nat (buf_pos s') \<le> length (buf s')
          \<and> buf_pos s' \<le> MPT_MAX_BUF_LEN \<and> buf_len s' = buf_pos s')"
  using fill_Inr [OF assms] by (auto simp: MPT_MAX_BUF_LEN_def)

lemma fetch_limb_inv:
  assumes "fetch_limb s = Inr (x, s')" and "reader_inv s"
  shows "reader_inv s' \<and> f s' = f s \<and> base s' = base s \<and> base2_exp s' = base2_exp s
    \<and> base2_mask s' = base2_mask s \<and> cur_digit s' = cur_digit s
    \<and> start_digit s' = start_digit s \<and> cur_limb10 s' = cur_limb10 s
    \<and> cur_limb2 s' = cur_limb2 s \<and> h s' = h s
    \<and> pos s' \<le> pos s
    \<and> (x = None \<longrightarrow> s' = s \<and> buf_pos s = 0 \<and> pos s = 0)
    \<and> (x \<noteq> None \<longrightarrow> buf_pos s' + pos s' + 1 = buf_pos s + pos s)"
proof -
  from assms(2) have p0: "0 \<le> pos s"
    by (simp add: reader_inv_def)
  from fetch_limb_Inr [OF assms(1) p0] show ?thesis
  proof (elim disjE exE conjE)
    assume "x = None" "s' = s" "buf_pos s = 0" "pos s = 0"
    with assms(2) show ?thesis by simp
  next
    fix s1
    assume a: "if buf_pos s = 0 then mpt_reader_fill s = Inr (0, s1) \<and> 0 < pos s else s1 = s"
      "s' = s1\<lparr>buf_pos := buf_pos s1 - 1\<rparr>" "0 \<le> buf_pos s1 - 1"
      "nat (buf_pos s1 - 1) < length (buf s1)" "x = Some (buf s1 ! nat (buf_pos s1 - 1))"
    show ?thesis
    proof (cases "buf_pos s = 0")
      case False
      with a assms(2) show ?thesis
        by (auto simp: reader_inv_def)
    next
      case True
      with a have fl: "mpt_reader_fill s = Inr (0, s1)" by simp
      from fill_fields [OF fl p0] assms(2) a True show ?thesis
        by (auto simp: reader_inv_def)
    qed
  qed
qed

lemma emit10_inv:
  assumes "emit10 s = Inr (c, s')" and "\<forall>d\<in>set (cur_limb10 s). uint d < 10"
  shows "s' = s\<lparr>cur_digit := cur_digit s - 1\<rparr> \<and> 0 \<le> cur_digit s - 1 \<and> 0 \<le> c \<and> c < 10
    \<and> nat (cur_digit s - 1) < length (cur_limb10 s)
    \<and> c = uint (cur_limb10 s ! nat (cur_digit s - 1))"
  using assms
  by (auto simp: emit10_def Let_def split: if_splits)

lemma emit2_inv:
  assumes "emit2 s = Inr (c, s')" and "base2_mask s = 1 \<or> base2_mask s = 15"
  shows "s' = s\<lparr>cur_digit := cur_digit s - base2_exp s\<rparr> \<and> 0 \<le> cur_digit s - base2_exp s
    \<and> cur_digit s - base2_exp s < 64
    \<and> 0 \<le> c \<and> c \<le> base2_mask s
    \<and> c = digit2 (base2_mask s) (cur_limb2 s) (nat (cur_digit s - base2_exp s))"
  using assms digit2_range [OF assms(2)]
  by (auto simp: emit2_def Let_def split: if_splits)

lemma get_digit_inv:
  assumes "mpt_reader_get_digit s = Inr (c, s')" and "reader_inv s"
  shows "reader_inv s' \<and> f s' = f s \<and> base s' = base s \<and> h s' = h s \<and> pos s' \<le> pos s
    \<and> (c < 0 \<longrightarrow> c = - 1 \<and> s' = s \<and> cur_digit s = 0 \<and> buf_pos s = 0 \<and> pos s = 0)
    \<and> (0 \<le> c \<longrightarrow> c < base s \<and> digits_bound s' + 1 \<le> digits_bound s)"
proof (cases "cur_digit s = 0")
  case False
  show ?thesis
  proof (cases "base s = 10")
    case True
    with False assms(1) have e: "emit10 s = Inr (c, s')"
      by (simp add: mpt_reader_get_digit_def)
    from emit10_inv [OF e] assms(2) True show ?thesis
      by (auto simp: reader_inv_def digits_bound_def)
  next
    case b: False
    with False assms(1) have e: "emit2 s = Inr (c, s')"
      by (simp add: mpt_reader_get_digit_def)
    from b assms(2) have m: "base2_mask s = 1 \<or> base2_mask s = 15"
      by (auto simp: reader_inv_def)
    from emit2_inv [OF e m] assms(2) b show ?thesis
      by (auto simp: reader_inv_def digits_bound_def)
  qed
next
  case z: True
  from z assms(1) obtain x s1 where fe: "fetch_limb s = Inr (x, s1)"
    by (auto simp: mpt_reader_get_digit_def split: if_splits sum.splits)
  note fi = fetch_limb_inv [OF fe assms(2)]
  show ?thesis
  proof (cases x)
    case None
    with z fe assms(1) fi show ?thesis
      by (auto simp: mpt_reader_get_digit_def split: if_splits)
  next
    case (Some a)
    show ?thesis
    proof (cases "base s = 10")
      case True
      with z fe Some assms(1) have e: "emit10 (s1\<lparr>cur_limb10 := extract10 (nat BASE10_EXP) a,
                          cur_digit := BASE10_EXP - start_digit s1,
                          start_digit := 0\<rparr>) = Inr (c, s')"
        by (simp add: mpt_reader_get_digit_def)
      have "\<forall>d\<in>set (cur_limb10 (s1\<lparr>cur_limb10 := extract10 (nat BASE10_EXP) a,
                          cur_digit := BASE10_EXP - start_digit s1,
                          start_digit := 0\<rparr>)). uint d < 10"
        by (simp add: list_all_extract10)
      from emit10_inv [OF e this] fi True Some z show ?thesis
        by (auto simp: reader_inv_def digits_bound_def list_all_extract10 BASE10_EXP_def)
    next
      case b: False
      with z fe Some assms(1) have e: "emit2 (s1\<lparr>cur_limb2 := a,
                         cur_digit := 64 - start_digit s1,
                         start_digit := 0\<rparr>) = Inr (c, s')"
        by (simp add: mpt_reader_get_digit_def)
      from b assms(2) fi have m: "base2_mask (s1\<lparr>cur_limb2 := a,
                         cur_digit := 64 - start_digit s1,
                         start_digit := 0\<rparr>) = 1 \<or> base2_mask (s1\<lparr>cur_limb2 := a,
                         cur_digit := 64 - start_digit s1,
                         start_digit := 0\<rparr>) = 15"
        by (auto simp: reader_inv_def)
      from emit2_inv [OF e m] fi b Some z assms(2) show ?thesis
        by (auto simp: reader_inv_def digits_bound_def)
    qed
  qed
qed


lemma get_digits_inv:
  assumes "get_digits k s = Inr (ds, s')" and "reader_inv s"
  shows "reader_inv s' \<and> f s' = f s \<and> base s' = base s \<and> pos s' \<le> pos s
    \<and> (\<forall>d\<in>set ds. 0 \<le> d \<and> d < base s)
    \<and> int (length ds) + digits_bound s' \<le> digits_bound s"
  using assms
proof (induction k arbitrary: s ds)
  case 0
  then show ?case by (simp add: get_digits_def)
next
  case (Suc k)
  from Suc.prems(1) obtain c s1 where g: "mpt_reader_get_digit s = Inr (c, s1)"
    by (auto simp: get_digits_def split: sum.splits)
  note gi = get_digit_inv [OF g Suc.prems(2)]
  show ?case
  proof (cases "c < 0")
    case True
    with g Suc.prems(1) have "ds = []" "s' = s1"
      by (auto simp: get_digits_def)
    with gi True Suc.prems(2) show ?thesis by auto
  next
    case False
    with g Suc.prems(1) obtain cs where p: "get_digits k s1 = Inr (cs, s')" and d: "ds = c # cs"
      by (auto simp: get_digits_def split: sum.splits)
    from gi have "reader_inv s1" by simp
    from Suc.IH [OF p this] gi False d show ?thesis
      by auto
  qed
qed


subsection \<open>The range of the digits\<close>

lemma sdiv_nonneg: "0 \<le> (a::int) \<Longrightarrow> 0 < b \<Longrightarrow> a sdiv b = a div b"
  by (simp add: signed_divide_int_def sgn_if)

lemma smod_nonneg: "0 \<le> (a::int) \<Longrightarrow> 0 < b \<Longrightarrow> a smod b = a mod b"
  by (simp add: signed_modulo_int_def sgn_if)

lemma fetch_limb_no_fill:
  assumes "0 < buf_pos s" "nat (buf_pos s) \<le> length (buf s)"
  shows "fetch_limb s
    = Inr (Some (buf s ! nat (buf_pos s - 1)), s\<lparr>buf_pos := buf_pos s - 1\<rparr>)"
proof -
  from assms have "0 \<le> buf_pos s - 1" "nat (buf_pos s - 1) < length (buf s)" "buf_pos s \<noteq> 0"
    by linarith+
  then show ?thesis
    unfolding fetch_limb_def Let_def by simp
qed

lemma fetch_limb_fill:
  assumes "buf_pos s = 0" "mpt_reader_fill s = Inr (0, s0)"
    "0 < buf_pos s0" "nat (buf_pos s0) \<le> length (buf s0)"
  shows "fetch_limb s
    = Inr (Some (buf s0 ! nat (buf_pos s0 - 1)), s0\<lparr>buf_pos := buf_pos s0 - 1\<rparr>)"
proof -
  from assms(3,4) have "0 \<le> buf_pos s0 - 1" "nat (buf_pos s0 - 1) < length (buf s0)"
    by linarith+
  then show ?thesis
    unfolding fetch_limb_def Let_def using assms(1,2) by simp
qed

lemma emit10_ok:
  assumes "0 < cur_digit s" "cur_digit s \<le> 19" "length (cur_limb10 s) = 19"
  shows "emit10 s = Inr (uint (cur_limb10 s ! nat (cur_digit s - 1)),
                         s\<lparr>cur_digit := cur_digit s - 1\<rparr>)"
proof -
  from assms have "0 \<le> cur_digit s - 1" "nat (cur_digit s - 1) < length (cur_limb10 s)"
    by linarith+
  then show ?thesis
    unfolding emit10_def Let_def by simp
qed

lemma emit2_ok:
  assumes "0 < cur_digit s" "cur_digit s \<le> 64" "base2_exp s dvd cur_digit s"
    and "base2_exp s = 1 \<or> base2_exp s = 4"
  shows "emit2 s = Inr (digit2 (base2_mask s) (cur_limb2 s) (nat (cur_digit s - base2_exp s)),
                        s\<lparr>cur_digit := cur_digit s - base2_exp s\<rparr>)"
proof -
  from assms(3) obtain q where q: "cur_digit s = base2_exp s * q" ..
  with assms(1,4) have "0 < q"
    by (auto simp: zero_less_mult_iff)
  then have "base2_exp s \<le> base2_exp s * q"
    using assms(4) by auto
  with q assms(2,4) have "0 \<le> cur_digit s - base2_exp s" "cur_digit s - base2_exp s < 64"
    by auto
  then show ?thesis
    unfolding emit2_def Let_def by simp
qed

lemma fill_not_undefined:
  assumes "f s \<noteq> None" "0 \<le> pos s"
  shows "mpt_reader_fill s \<noteq> Inl Undefined"
proof (cases "pos s = 0")
  case True
  then show ?thesis
    by (simp add: mpt_reader_fill_def min_int64_def MPT_MAX_BUF_LEN_def)
next
  case False
  define n where "n = min (pos s) MPT_MAX_BUF_LEN"
  have m: "min_int64 (pos s) MPT_MAX_BUF_LEN = n"
    by (simp add: min_int64_def min_def n_def)
  from False assms(2) have n: "0 < n" "n \<le> MPT_MAX_BUF_LEN"
    by (simp_all add: n_def MPT_MAX_BUF_LEN_def)
  then have n0: "(n = 0) = False" by simp
  from assms(1) obtain fl where fl: "f s = Some fl" by auto
  show ?thesis
    unfolding mpt_reader_fill_def m Let_def n0
    by (simp add: fl file_read_cases [OF n])
qed

lemma fetch_limb_safe:
  assumes "reader_inv s" "cursor_inv s"
  shows "fetch_limb s \<noteq> Inl Undefined"
    and "fetch_limb s = Inr (x, s') \<Longrightarrow> cursor_inv s'"
proof -
  from assms have i: "0 \<le> pos s" "0 \<le> buf_pos s" "f s \<noteq> None"
    "nat (buf_pos s) \<le> length (buf s)"
    by (simp_all add: reader_inv_def cursor_inv_def)
  show "fetch_limb s \<noteq> Inl Undefined"
  proof (cases "buf_pos s = 0")
    case False
    with i have "0 < buf_pos s" by simp
    from fetch_limb_no_fill [OF this i(4)] show ?thesis by simp
  next
    case True
    show ?thesis
    proof (cases "mpt_reader_fill s")
      case (Inl e)
      with fill_not_undefined [OF i(3,1)] True show ?thesis
        by (simp add: fetch_limb_def)
    next
      case (Inr rs)
      obtain r s1 where rs: "rs = (r, s1)" by (cases rs)
      with Inr have fl: "mpt_reader_fill s = Inr (r, s1)" by simp
      show ?thesis
      proof (cases "r = 0")
        case False
        with fl True show ?thesis by (simp add: fetch_limb_def)
      next
        case r0: True
        with fl have fl0: "mpt_reader_fill s = Inr (0, s1)" by simp
        from fill_fields [OF fl i(1)] r0
        have "0 < buf_pos s1" "nat (buf_pos s1) \<le> length (buf s1)" by simp_all
        from fetch_limb_fill [OF True fl0 this] show ?thesis by simp
      qed
    qed
  qed
  show "cursor_inv s'" if "fetch_limb s = Inr (x, s')"
    using fetch_limb_Inr [OF that i(1)]
  proof (elim disjE exE conjE)
    assume "s' = s"
    with assms(2) show ?thesis by simp
  next
    fix s1
    assume a: "if buf_pos s = 0 then mpt_reader_fill s = Inr (0, s1) \<and> 0 < pos s else s1 = s"
      "s' = s1\<lparr>buf_pos := buf_pos s1 - 1\<rparr>" "nat (buf_pos s1 - 1) < length (buf s1)"
    have "f s1 = f s \<and> base s1 = base s \<and> base2_exp s1 = base2_exp s
        \<and> cur_digit s1 = cur_digit s \<and> start_digit s1 = start_digit s
        \<and> cur_limb10 s1 = cur_limb10 s"
    proof (cases "buf_pos s = 0")
      case True
      with a(1) have "mpt_reader_fill s = Inr (0, s1)" by simp
      from fill_fields [OF this i(1)] show ?thesis by simp
    next
      case False
      with a(1) show ?thesis by simp
    qed
    with assms(2) a(2,3) show ?thesis
      by (auto simp: cursor_inv_def split: if_splits)
  qed
qed

lemma get_digit_safe:
  assumes "reader_inv s" "cursor_inv s"
  shows "mpt_reader_get_digit s \<noteq> Inl Undefined"
    and "mpt_reader_get_digit s = Inr (c, s') \<Longrightarrow> cursor_inv s'"
proof -
  from assms(1) have b: "base s = 10 \<or> base2_exp s = 1 \<or> base2_exp s = 4"
    and cd0: "0 \<le> cur_digit s"
    by (auto simp: reader_inv_def)
  from assms(2) have ci: "length (cur_limb10 s) = 19"
    "cur_digit s \<le> (if base s = 10 then 19 else 64)"
    "(if base s = 10 then 1 else base2_exp s) dvd cur_digit s"
    "0 \<le> start_digit s" "start_digit s < (if base s = 10 then 19 else 64)"
    "(if base s = 10 then 1 else base2_exp s) dvd start_digit s"
    by (simp_all add: cursor_inv_def)
  have "mpt_reader_get_digit s \<noteq> Inl Undefined
      \<and> (mpt_reader_get_digit s = Inr (c, s') \<longrightarrow> cursor_inv s')"
  proof (cases "cur_digit s = 0")
    case False
    with cd0 have p: "0 < cur_digit s" by simp
    show ?thesis
    proof (cases "base s = 10")
      case True
      with ci have "cur_digit s \<le> 19" by simp
      from emit10_ok [OF p this ci(1)] False True assms(2) show ?thesis
        by (auto simp: mpt_reader_get_digit_def cursor_inv_def)
    next
      case b2: False
      with ci b have e: "cur_digit s \<le> 64" "base2_exp s dvd cur_digit s"
        "base2_exp s = 1 \<or> base2_exp s = 4"
        by simp_all
      from emit2_ok [OF p e] False b2 assms(2) e show ?thesis
        by (auto simp: mpt_reader_get_digit_def cursor_inv_def)
    qed
  next
    case z: True
    show ?thesis
    proof (cases "fetch_limb s")
      case (Inl e)
      with fetch_limb_safe(1) [OF assms] z show ?thesis
        by (simp add: mpt_reader_get_digit_def)
    next
      case (Inr xs)
      obtain x s1 where xs: "xs = (x, s1)" by (cases xs)
      with Inr have fe: "fetch_limb s = Inr (x, s1)" by simp
      from fetch_limb_safe(2) [OF assms fe] have c1: "cursor_inv s1" .
      from fetch_limb_inv [OF fe assms(1)] have k: "base s1 = base s"
        "base2_exp s1 = base2_exp s" "start_digit s1 = start_digit s"
        by simp_all
      show ?thesis
      proof (cases x)
        case None
        with fe z c1 show ?thesis
          by (auto simp: mpt_reader_get_digit_def)
      next
        case (Some a)
        show ?thesis
        proof (cases "base s = 10")
          case True
          define sL where "sL = s1\<lparr>cur_limb10 := extract10 (nat BASE10_EXP) a,
                          cur_digit := BASE10_EXP - start_digit s1, start_digit := 0\<rparr>"
          have g: "mpt_reader_get_digit s = emit10 sL"
            using z True fe Some by (simp add: mpt_reader_get_digit_def sL_def)
          have "0 < cur_digit sL" "cur_digit sL \<le> 19" "length (cur_limb10 sL) = 19"
            using ci(4,5) True k by (simp_all add: sL_def BASE10_EXP_def)
          from emit10_ok [OF this] c1 True k ci(4,5) show ?thesis
            unfolding g by (auto simp: cursor_inv_def sL_def BASE10_EXP_def)
        next
          case b2: False
          define sL where "sL = s1\<lparr>cur_limb2 := a, cur_digit := 64 - start_digit s1,
                          start_digit := 0\<rparr>"
          have g: "mpt_reader_get_digit s = emit2 sL"
            using z b2 fe Some by (simp add: mpt_reader_get_digit_def sL_def)
          from b b2 have e: "base2_exp s = 1 \<or> base2_exp s = 4" by simp
          from ci(6) b2 have "base2_exp s dvd start_digit s" by simp
          with e have dv: "base2_exp s dvd 64 - start_digit s"
            by auto
          have "0 < cur_digit sL" "cur_digit sL \<le> 64" "base2_exp sL dvd cur_digit sL"
            "base2_exp sL = 1 \<or> base2_exp sL = 4"
            using ci(4,5) b2 k e dv by (simp_all add: sL_def)
          from emit2_ok [OF this] c1 b2 k ci(4,5) dv e show ?thesis
            unfolding g by (auto simp: cursor_inv_def sL_def)
        qed
      qed
    qed
  qed
  then show "mpt_reader_get_digit s \<noteq> Inl Undefined"
    and "mpt_reader_get_digit s = Inr (c, s') \<Longrightarrow> cursor_inv s'"
    by simp_all
qed

lemma get_digits_safe:
  assumes "reader_inv s" "cursor_inv s"
  shows "get_digits k s \<noteq> Inl Undefined"
  using assms
proof (induction k arbitrary: s)
  case 0
  then show ?case by (simp add: get_digits_def)
next
  case (Suc k)
  show ?case
  proof (cases "mpt_reader_get_digit s")
    case (Inl e)
    with get_digit_safe(1) [OF Suc.prems] show ?thesis
      by (simp add: get_digits_def)
  next
    case (Inr cs)
    obtain c s1 where cs: "cs = (c, s1)" by (cases cs)
    with Inr have g: "mpt_reader_get_digit s = Inr (c, s1)" by simp
    from get_digit_inv [OF g Suc.prems(1)] have r1: "reader_inv s1" by simp
    from get_digit_safe(2) [OF Suc.prems g] have c1: "cursor_inv s1" .
    from Suc.IH [OF r1 c1] g show ?thesis
      by (auto simp: get_digits_def split: sum.splits)
  qed
qed

lemma open_cursor:
  assumes "mpt_reader_open file b p = Inr s" and "0 \<le> p"
  shows "cursor_inv s"
proof -
  from open_Inr [OF assms(1)] obtain fl hdr dpl e m sp where
    o: "b = 10 \<or> b = 2 \<or> b = 16" "base_setup b p = Some (dpl, e, m, sp)"
      "s = zero_reader\<lparr>f := Some fl, fpos := 7, h := hdr, base2_exp := e,
                       base2_mask := m, base := b, buf_len := 0, buf_pos := 0,
                       pos := limb_offset hdr sp dpl,
                       start_digit := sp smod dpl\<rparr>"
    by blast
  note c = base_setup_Some [OF o(2,1)]
  from c assms(2) have "0 \<le> sp" "0 < dpl" by auto
  then have sm: "sp smod dpl = sp mod dpl" by (rule smod_nonneg)
  have "4 * p mod 64 = 4 * (p mod 16)"
    using mult_mod_right [of 4 p 16] by simp
  then have "(4::int) dvd 4 * p mod 64"
    by simp
  with c show ?thesis
    unfolding o(3) sm by (auto simp: cursor_inv_def zero_reader_def)
qed

lemma open_16_bound:
  assumes "mpt_reader_open file 16 p = Inr s"
  shows "p < 2 ^ 61"
proof -
  from open_Inr [OF assms] obtain dpl e m sp where
    "base_setup 16 p = Some (dpl, e, m, sp)"
    by blast
  then have "in_int64 (p * 4)"
    by (auto simp: base_setup_def base2_exp_loop_16 split: if_splits)
  then show ?thesis
    by (simp add: in_int64_def)
qed

text \<open>
  C8, as the specification states it, holds of every successfully opened stream.
  \<^verbatim>\<open>mpt_reader_open\<close> does not look at the sign of the start position, and
  \<^verbatim>\<open>dump_digits\<close> passes \<^verbatim>\<open>pos - 1\<close>. With the start position \<open>-6\<close> in base 10 the
  open succeeds with \<^verbatim>\<open>start_digit = -6\<close>; the first \<^verbatim>\<open>mpt_reader_get_digit\<close> sets
  \<^verbatim>\<open>cur_digit\<close> to \<open>19 + 6 - 1 = 24\<close> and returns \<^verbatim>\<open>cur_limb10[24]\<close>, a byte that lies
  outside the array of 19 digits: nothing bounds it by 9. (With the start position
  \<open>-1\<close> it is \<^verbatim>\<open>cur_limb10[19]\<close>.)
\<close>

theorem negative_start_reads_outside:
  "mpt_reader_open (Some pi_file) 10 (- 6) = Inr (pi_reader\<lparr>start_digit := - 6\<rparr>)
   \<and> mpt_reader_get_digit (pi_reader\<lparr>start_digit := - 6\<rparr>) = Inl Undefined
   \<and> open_pull mpt_reader_get_digit (Some pi_file) 10 (- 6) 1 = Inr (Inl Undefined)
   \<and> open_pull mpt_reader_get_digit (Some pi_file) 10 (- 1) 1 = Inr (Inl Undefined)"
  by code_simp

text \<open>
  C8, amended: on every stream successfully opened at a start position \<open>p \<ge> 0\<close>,
  \<^verbatim>\<open>mpt_reader_get_digit\<close> never reads outside its arrays, and every digit it produces
  lies between 0 and the base minus 1. (Only the bases 10, 2 and 16 open, and base 16
  only below \<open>2^61\<close>, where the start position can be multiplied by 4. A run of calls
  ends with the digits asked for, with the end of data, or in the \<^verbatim>\<open>abort()\<close> of a
  short read.)
\<close>

theorem digits_in_range:
  assumes "0 \<le> p"
  shows "open_pull mpt_reader_get_digit file b p k \<noteq> Inr (Inl Undefined)
    \<and> (open_pull mpt_reader_get_digit file b p k = Inr (Inr ds) \<longrightarrow>
         (\<forall>d\<in>set ds. 0 \<le> d \<and> d \<le> b - 1))
    \<and> (open_pull mpt_reader_get_digit file b p k = Inr r \<longrightarrow>
         (b = 10 \<or> b = 2 \<or> b = 16) \<and> (b = 16 \<longrightarrow> p < 2 ^ 61))"
proof (cases "mpt_reader_open file b p")
  case (Inl e)
  then show ?thesis
    by (simp add: open_pull_def)
next
  case (Inr s0)
  from open_inv [OF Inr] have r: "reader_inv s0" and b: "base s0 = b"
    by simp_all
  from open_cursor [OF Inr assms] have c: "cursor_inv s0" .
  have 1: "open_pull mpt_reader_get_digit file b p k \<noteq> Inr (Inl Undefined)"
    using get_digits_safe [OF r c, of k] Inr
    by (auto simp: open_pull_def get_digits_def split: sum.splits)
  have 2: "\<forall>d\<in>set ds. 0 \<le> d \<and> d \<le> b - 1"
    if "open_pull mpt_reader_get_digit file b p k = Inr (Inr ds)"
  proof -
    from that Inr obtain s where g: "get_digits k s0 = Inr (ds, s)"
      by (auto simp: open_pull_def get_digits_def split: sum.splits)
    from get_digits_inv [OF g r] b show ?thesis
      by auto
  qed
  from open_Inr [OF Inr] have 3: "b = 10 \<or> b = 2 \<or> b = 16"
    by blast
  have 4: "p < 2 ^ 61" if "b = 16"
    using open_16_bound [of "file" p s0] Inr that by simp
  from 1 2 3 4 show ?thesis
    by blast
qed

theorem digits_in_range_witness:
  "(0::int) \<le> 0
   \<and> open_pull mpt_reader_get_digit (Some pi_file) 16 0 16
     = Inr (Inr [2, 11, 9, 9, 2, 13, 13, 15, 10, 2, 3, 2, 4, 9, 13, 6])
   \<and> list_all (\<lambda>d. 0 \<le> d \<and> d \<le> 16 - 1) [2, 11, 9, 9, 2, 13, 13, 15, 10, 2, 3, 2, 4, 9, 13, 6 :: int]
   \<and> open_pull mpt_reader_get_digit (Some short_file) 10 0 1 = Inr (Inl Abort)
   \<and> open_pull mpt_reader_get_digit (Some short_file) 10 0 1 \<noteq> Inr (Inl Undefined)"
proof -
  have a: "open_pull mpt_reader_get_digit (Some pi_file) 16 0 16
     = Inr (Inr [2, 11, 9, 9, 2, 13, 13, 15, 10, 2, 3, 2, 4, 9, 13, 6])"
    by code_simp
  have b: "open_pull mpt_reader_get_digit (Some short_file) 10 0 1 = Inr (Inl Abort)"
    by code_simp
  have z: "(0::int) \<le> 0" by simp
  from digits_in_range [OF z, of "Some pi_file" 16 16
      "[2, 11, 9, 9, 2, 13, 13, 15, 10, 2, 3, 2, 4, 9, 13, 6]"
      "Inr [2, 11, 9, 9, 2, 13, 13, 15, 10, 2, 3, 2, 4, 9, 13, 6]"]
    digits_in_range [OF z, of "Some short_file" 10 1 "[]" "Inl Abort"] a b
  show ?thesis
    by (simp add: list_all_iff)
qed


subsection \<open>The position check\<close>

lemma limb_offset_exact:
  assumes "in_int64 (uint (len hdr) - sint (expn hdr) - sp sdiv dpl)"
  shows "limb_offset hdr sp dpl = uint (len hdr) - sint (expn hdr) - sp sdiv dpl"
proof -
  have "len hdr - expn hdr - word_of_int (sp sdiv dpl)
      = (word_of_int (uint (len hdr) - sint (expn hdr) - sp sdiv dpl) :: 64 word)"
    by simp
  then have "limb_offset hdr sp dpl
      = signed_take_bit 63 (uint (len hdr) - sint (expn hdr) - sp sdiv dpl)"
    unfolding limb_offset_def by (simp only: sint_sbintrunc') simp
  also have "\<dots> = uint (len hdr) - sint (expn hdr) - sp sdiv dpl"
    using assms by (simp add: in_int64_def signed_take_bit_int_eq_self)
  finally show ?thesis .
qed

lemma base_setup_cases:
  assumes "b = 10 \<and> dpl = 19 \<and> e = 0 \<and> m = 0 \<and> sp = p
       \<or> b = 2 \<and> dpl = 64 \<and> e = 1 \<and> m = 1 \<and> sp = p
       \<or> b = 16 \<and> dpl = 64 \<and> e = 4 \<and> m = 15 \<and> sp = 4 * p"
    and "in_int64 sp"
  shows "base_setup b p = Some (dpl, e, m, sp)"
  using assms
  by (auto simp: base_setup_def base2_exp_loop_2 base2_exp_loop_16 BASE10_EXP_def mult.commute)

lemma open_setup_valid_header:
  assumes "header fl = Some hdr" "magic hdr = mpt_magic" "type hdr = MPT_TYPE_MPF"
    "0 \<le> sint (expn hdr)"
    and "b = 10 \<and> dpl = 19 \<and> e = 0 \<and> m = 0 \<and> sp = p
       \<or> b = 2 \<and> dpl = 64 \<and> e = 1 \<and> m = 1 \<and> sp = p
       \<or> b = 16 \<and> dpl = 64 \<and> e = 4 \<and> m = 15 \<and> sp = 4 * p"
    and "in_int64 sp"
  shows "open_setup (Some fl) b p =
     Inr (zero_reader\<lparr>f := Some fl, fpos := 7, h := hdr, base2_exp := e,
                       base2_mask := m, base := b, buf_len := 0, buf_pos := 0,
                       pos := limb_offset hdr sp dpl\<rparr>, sp, dpl)"
  using base_setup_cases [OF assms(5,6)] assms(1-5)
  by (auto simp: open_setup_def)

lemma open_valid_header:
  assumes "header fl = Some hdr" "magic hdr = mpt_magic" "type hdr = MPT_TYPE_MPF"
    "0 \<le> sint (expn hdr)"
    and "b = 10 \<and> dpl = 19 \<and> e = 0 \<and> m = 0 \<and> sp = p
       \<or> b = 2 \<and> dpl = 64 \<and> e = 1 \<and> m = 1 \<and> sp = p
       \<or> b = 16 \<and> dpl = 64 \<and> e = 4 \<and> m = 15 \<and> sp = 4 * p"
    and "in_int64 sp"
  shows "mpt_reader_open (Some fl) b p =
     (if limb_offset hdr sp dpl \<le> 0 then Inl PositionOutOfRangeError
      else Inr (zero_reader\<lparr>f := Some fl, fpos := 7, h := hdr, base2_exp := e,
                       base2_mask := m, base := b, buf_len := 0, buf_pos := 0,
                       pos := limb_offset hdr sp dpl,
                       start_digit := sp smod dpl\<rparr>))"
  unfolding mpt_reader_open_def open_setup_valid_header [OF assms]
  by simp

text \<open>
  C4, as the specification states it, takes the limb offset
  \<open>storedLength - exponent - floor(startPosition / digitsPerLimb)\<close> as a number,
  for every start position. The code differs in three places.
  \<^item> It computes the offset modulo \<open>2^64\<close>: with \<open>len = 0\<close>, \<open>expn = 2^63 - 1\<close>
    and start position 38 in base 10 the offset is \<open>- 2^63 - 1\<close>, the value assigned
    to \<^verbatim>\<open>s->pos\<close> is \<open>2^63 - 1\<close>, and the open succeeds.
  \<^item> In base 16 it multiplies the start position by 4 first: at \<open>2^61\<close> the product
    does not fit \<^verbatim>\<open>int64_t\<close> and the behaviour is undefined, although the offset
    \<open>2 - 2^57\<close> is negative.
  \<^item> Its division truncates: at the start position \<open>- 1\<close> on a file without limbs the
    offset with \<open>floor\<close> is 1, the code computes 0 and refuses the position.
\<close>

theorem open_offset_wraps:
  "uint (len wrap_header) - sint (expn wrap_header) - 38 div 19 \<le> 0
   \<and> mpt_reader_open (Some wrap_file) 10 38 \<noteq> Inl PositionOutOfRangeError
   \<and> uint (len two_header) - sint (expn two_header) - 2 ^ 61 div 16 \<le> 0
   \<and> mpt_reader_open (Some two_file) 16 (2 ^ 61) = Inl OpenUndefined
   \<and> 0 < uint (len empty_header) - sint (expn empty_header) - (- 1) div 19
   \<and> mpt_reader_open (Some empty_file) 10 (- 1) = Inl PositionOutOfRangeError"
  by code_simp

text \<open>
  C4, amended: for every file whose header parses, every base among 10, 2 and 16 and
  every start position whose scaled value \<open>sp\<close> (the start position itself in the
  bases 10 and 2, four times the start position in base 16) fits a signed 64-bit
  integer, when the limb offset \<open>storedLength - exponent - sp / digits_per_limb\<close>,
  with the quotient rounded towards zero (\<open>floor\<close> for the start positions from 0 on)
  and \<open>digits_per_limb\<close> 19 in base 10 and 64 otherwise, fits a signed 64-bit integer
  too: if it is \<open>\<le> 0\<close>, the open fails with \<open>PositionOutOfRangeError\<close>; the reader
  that fails this check has its stream at byte 56, the end of the header structure,
  and an empty buffer, and the failure is the same whatever words the file holds;
  if the offset is \<open>> 0\<close>, the open succeeds with that offset as its position, the
  stream at byte 56 and an empty buffer.
\<close>

theorem open_position_check:
  assumes "header fl = Some hdr" "magic hdr = mpt_magic" "type hdr = MPT_TYPE_MPF"
    "0 \<le> sint (expn hdr)"
    and "b = 10 \<and> dpl = 19 \<and> sp = p \<or> b = 2 \<and> dpl = 64 \<and> sp = p
       \<or> b = 16 \<and> dpl = 64 \<and> sp = 4 * p"
    and "in_int64 sp"
    and "off = uint (len hdr) - sint (expn hdr) - sp sdiv dpl"
    and "in_int64 off"
  shows "(off \<le> 0 \<longrightarrow>
            mpt_reader_open (Some fl) b p = Inl PositionOutOfRangeError
          \<and> (\<exists>s. open_setup (Some fl) b p = Inr (s, sp, dpl)
                 \<and> pos s = off \<and> fpos s = 7 \<and> buf s = [])
          \<and> mpt_reader_open (Some (fl\<lparr>words := ws\<rparr>)) b p = Inl PositionOutOfRangeError)
       \<and> (0 < off \<longrightarrow>
            (\<exists>s. mpt_reader_open (Some fl) b p = Inr s \<and> pos s = off \<and> fpos s = 7
                 \<and> buf s = []))"
proof -
  from assms(7,8) have lo: "limb_offset hdr sp dpl = off"
    using limb_offset_exact [of hdr sp dpl] by simp
  from assms(5) obtain e m :: int where c: "b = 10 \<and> dpl = 19 \<and> e = 0 \<and> m = 0 \<and> sp = p
       \<or> b = 2 \<and> dpl = 64 \<and> e = 1 \<and> m = 1 \<and> sp = p
       \<or> b = 16 \<and> dpl = 64 \<and> e = 4 \<and> m = 15 \<and> sp = 4 * p"
    by auto
  have h2: "header (fl\<lparr>words := ws\<rparr>) = Some hdr"
    using assms(1) by simp
  from open_valid_header [OF assms(1-4) c assms(6)]
       open_valid_header [OF h2 assms(2-4) c assms(6)]
       open_setup_valid_header [OF assms(1-4) c assms(6)] lo
  show ?thesis
    by (auto simp: zero_reader_def)
qed

theorem open_position_check_witness:
  "mpt_reader_open (Some pi_file) 10 18 \<noteq> Inl PositionOutOfRangeError
   \<and> mpt_reader_open (Some pi_file) 10 19 = Inl PositionOutOfRangeError
   \<and> mpt_reader_open (Some (pi_file\<lparr>words := []\<rparr>)) 10 19 = Inl PositionOutOfRangeError
   \<and> (\<exists>s. open_setup (Some pi_file) 10 19 = Inr (s, 19, 19) \<and> pos s = 0 \<and> fpos s = 7
          \<and> buf s = [])
   \<and> mpt_reader_open (Some two_file) 16 31 \<noteq> Inl PositionOutOfRangeError
   \<and> mpt_reader_open (Some two_file) 16 32 = Inl PositionOutOfRangeError
   \<and> mpt_reader_open (Some two_file) 2 (2 ^ 63 - 1) = Inl PositionOutOfRangeError"
proof -
  have a: "header pi_file = Some pi_header" "magic pi_header = mpt_magic"
    "type pi_header = MPT_TYPE_MPF" "0 \<le> sint (expn pi_header)"
    by (simp_all add: pi_file_def pi_header_def)
  have a2: "header two_file = Some two_header" "magic two_header = mpt_magic"
    "type two_header = MPT_TYPE_MPF" "0 \<le> sint (expn two_header)"
    by (simp_all add: two_file_def two_header_def)
  have b: "(10::int) = 10 \<and> (19::int) = 19 \<and> (18::int) = 18 \<or> (10::int) = 2 \<and> (19::int) = 64 \<and> (18::int) = 18
       \<or> (10::int) = 16 \<and> (19::int) = 64 \<and> (18::int) = 4 * 18"
    "(10::int) = 10 \<and> (19::int) = 19 \<and> (19::int) = 19 \<or> (10::int) = 2 \<and> (19::int) = 64 \<and> (19::int) = 19
       \<or> (10::int) = 16 \<and> (19::int) = 64 \<and> (19::int) = 4 * 19"
    "(16::int) = 10 \<and> (64::int) = 19 \<and> (124::int) = 31 \<or> (16::int) = 2 \<and> (64::int) = 64 \<and> (124::int) = 31
       \<or> (16::int) = 16 \<and> (64::int) = 64 \<and> (124::int) = 4 * 31"
    "(16::int) = 10 \<and> (64::int) = 19 \<and> (128::int) = 32 \<or> (16::int) = 2 \<and> (64::int) = 64 \<and> (128::int) = 32
       \<or> (16::int) = 16 \<and> (64::int) = 64 \<and> (128::int) = 4 * 32"
    "(2::int) = 10 \<and> (64::int) = 19 \<and> (2 ^ 63 - 1::int) = 2 ^ 63 - 1
       \<or> (2::int) = 2 \<and> (64::int) = 64 \<and> (2 ^ 63 - 1::int) = 2 ^ 63 - 1
       \<or> (2::int) = 16 \<and> (64::int) = 64 \<and> (2 ^ 63 - 1::int) = 4 * (2 ^ 63 - 1)"
    by simp_all
  have c: "(1::int) = uint (len pi_header) - sint (expn pi_header) - 18 sdiv 19"
    "(0::int) = uint (len pi_header) - sint (expn pi_header) - 19 sdiv 19"
    "(1::int) = uint (len two_header) - sint (expn two_header) - 124 sdiv 64"
    "(0::int) = uint (len two_header) - sint (expn two_header) - 128 sdiv 64"
    "(- 144115188075855869::int)
       = uint (len two_header) - sint (expn two_header) - (2 ^ 63 - 1) sdiv 64"
    by (simp_all add: pi_header_def two_header_def signed_divide_int_def)
  have d: "in_int64 1" "in_int64 0" "in_int64 18" "in_int64 19" "in_int64 124" "in_int64 128"
    "in_int64 (2 ^ 63 - 1)" "in_int64 (- 144115188075855869)"
    by (simp_all add: in_int64_def)
  from open_position_check [OF a b(1) d(3) c(1) d(1), of "[]"]
       open_position_check [OF a b(2) d(4) c(2) d(2), of "[]"]
       open_position_check [OF a2 b(3) d(5) c(3) d(1), of "[]"]
       open_position_check [OF a2 b(4) d(6) c(4) d(2), of "[]"]
       open_position_check [OF a2 b(5) d(7) c(5) d(8), of "[]"]
  show ?thesis by auto
qed


subsection \<open>The stream is finite and its end is stable\<close>











subsection \<open>The buffer\<close>

lemma emit10_Inr:
  assumes "emit10 s = Inr (c, s')"
  shows "s' = s\<lparr>cur_digit := cur_digit s - 1\<rparr> \<and> 0 \<le> c"
  using assms by (auto simp: emit10_def Let_def split: if_splits)

lemma emit2_Inr:
  assumes "emit2 s = Inr (c, s')"
  shows "s' = s\<lparr>cur_digit := cur_digit s - base2_exp s\<rparr>"
  using assms by (auto simp: emit2_def Let_def split: if_splits)

lemma get_digit_Inr:
  assumes "mpt_reader_get_digit s = Inr (c, s')"
  shows "cur_digit s \<noteq> 0 \<and> (if base s = 10 then emit10 s else emit2 s) = Inr (c, s')
    \<or> cur_digit s = 0 \<and> fetch_limb s = Inr (None, s') \<and> c = - 1
    \<or> cur_digit s = 0 \<and> (\<exists>a s1. fetch_limb s = Inr (Some a, s1)
         \<and> (if base s = 10
             then emit10 (s1\<lparr>cur_limb10 := extract10 (nat BASE10_EXP) a,
                          cur_digit := BASE10_EXP - start_digit s1,
                          start_digit := 0\<rparr>)
             else emit2 (s1\<lparr>cur_limb2 := a,
                         cur_digit := 64 - start_digit s1,
                         start_digit := 0\<rparr>)) = Inr (c, s'))"
  using assms
  by (auto simp: mpt_reader_get_digit_def split: if_splits sum.splits option.splits)

lemma get_digit_keeps:
  assumes "mpt_reader_get_digit s = Inr (c, s')" and "cur_digit s \<noteq> 0"
  shows "buf_pos s' = buf_pos s \<and> buf_len s' = buf_len s \<and> buf s' = buf s \<and> pos s' = pos s
    \<and> fpos s' = fpos s"
  using get_digit_Inr [OF assms(1)] assms(2)
  by (auto dest!: emit10_Inr emit2_Inr split: if_splits)

lemma get_digit_consumes:
  assumes "mpt_reader_get_digit s = Inr (c, s')" and "cur_digit s = 0" and "0 \<le> c"
    and "0 \<le> pos s"
  shows "buf_pos s' = (if buf_pos s = 0 then buf_len s' else buf_pos s) - 1
    \<and> 0 \<le> buf_pos s' \<and> nat (buf_pos s') < length (buf s')
    \<and> (buf_pos s \<noteq> 0 \<longrightarrow>
         buf s' = buf s \<and> buf_len s' = buf_len s \<and> pos s' = pos s \<and> fpos s' = fpos s)
    \<and> (if base s = 10
        then cur_limb10 s' = extract10 (nat BASE10_EXP) (buf s' ! nat (buf_pos s'))
        else cur_limb2 s' = buf s' ! nat (buf_pos s'))"
proof -
  from get_digit_Inr [OF assms(1)] assms(2,3) obtain a s1 where
    fe: "fetch_limb s = Inr (Some a, s1)" and
    em: "(if base s = 10
             then emit10 (s1\<lparr>cur_limb10 := extract10 (nat BASE10_EXP) a,
                          cur_digit := BASE10_EXP - start_digit s1,
                          start_digit := 0\<rparr>)
             else emit2 (s1\<lparr>cur_limb2 := a,
                         cur_digit := 64 - start_digit s1,
                         start_digit := 0\<rparr>)) = Inr (c, s')"
    by auto
  from fetch_limb_Inr [OF fe assms(4)] obtain s0 where
    f0: "if buf_pos s = 0 then mpt_reader_fill s = Inr (0, s0) \<and> 0 < pos s else s0 = s"
      "s1 = s0\<lparr>buf_pos := buf_pos s0 - 1\<rparr>" "0 \<le> buf_pos s0 - 1"
      "nat (buf_pos s0 - 1) < length (buf s0)" "a = buf s0 ! nat (buf_pos s0 - 1)"
    by auto
  have b0: "buf_pos s0 = (if buf_pos s = 0 then buf_len s0 else buf_pos s)"
    "buf_pos s \<noteq> 0 \<longrightarrow> s0 = s"
    using f0(1) fill_fields [OF _ assms(4), of 0 s0] by (auto split: if_splits)
  show ?thesis
  proof (cases "base s = 10")
    case True
    with em have "s' = s1\<lparr>cur_limb10 := extract10 (nat BASE10_EXP) a,
                          cur_digit := BASE10_EXP - start_digit s1,
                          start_digit := 0, cur_digit := BASE10_EXP - start_digit s1 - 1\<rparr>"
      by (auto dest!: emit10_Inr)
    with f0 b0 True show ?thesis
      by auto
  next
    case False
    with em have "s' = s1\<lparr>cur_limb2 := a, cur_digit := 64 - start_digit s1,
                          start_digit := 0, cur_digit := 64 - start_digit s1 - base2_exp s1\<rparr>"
      by (auto dest!: emit2_Inr)
    with f0 b0 False show ?thesis
      by auto
  qed
qed

lemma get_digit_buffer:
  assumes "mpt_reader_get_digit s = Inr (c, s')" and "buffer_inv s"
  shows "buffer_inv s' \<and> pos s' \<le> pos s"
proof -
  from assms(2) have p0: "0 \<le> pos s"
    by (simp add: buffer_inv_def)
  have fe: "buffer_inv t \<and> pos t \<le> pos s"
    if "fetch_limb s = Inr (x, t)" for x t
    using fetch_limb_Inr [OF that p0]
  proof (elim disjE exE conjE)
    assume "t = s"
    with assms(2) show ?thesis by simp
  next
    fix s1
    assume a: "if buf_pos s = 0 then mpt_reader_fill s = Inr (0, s1) \<and> 0 < pos s else s1 = s"
      "t = s1\<lparr>buf_pos := buf_pos s1 - 1\<rparr>" "0 \<le> buf_pos s1 - 1"
    have "buffer_inv s1 \<and> pos s1 \<le> pos s"
    proof (cases "buf_pos s = 0")
      case True
      with a(1) have fl: "mpt_reader_fill s = Inr (0, s1)" by simp
      from fill_inv [OF fl assms(2)] fill_fields [OF fl p0] show ?thesis by simp
    next
      case False
      with a(1) assms(2) show ?thesis by simp
    qed
    with a(2,3) show ?thesis
      by (simp add: buffer_inv_def)
  qed
  from get_digit_Inr [OF assms(1)] show ?thesis
  proof (elim disjE conjE exE)
    assume "cur_digit s \<noteq> 0"
    from get_digit_keeps [OF assms(1) this] assms(2) show ?thesis
      by (simp add: buffer_inv_def)
  next
    assume "fetch_limb s = Inr (None, s')"
    from fe [OF this] show ?thesis by simp
  next
    fix a s1
    assume f1: "fetch_limb s = Inr (Some a, s1)"
      and em: "(if base s = 10
             then emit10 (s1\<lparr>cur_limb10 := extract10 (nat BASE10_EXP) a,
                          cur_digit := BASE10_EXP - start_digit s1,
                          start_digit := 0\<rparr>)
             else emit2 (s1\<lparr>cur_limb2 := a,
                         cur_digit := 64 - start_digit s1,
                         start_digit := 0\<rparr>)) = Inr (c, s')"
    from em have "buf_pos s' = buf_pos s1 \<and> buf_len s' = buf_len s1 \<and> pos s' = pos s1"
      by (auto dest!: emit10_Inr emit2_Inr split: if_splits)
    with fe [OF f1] show ?thesis by (simp add: buffer_inv_def)
  qed
qed

lemma get_digits_buffer:
  assumes "mpt_reader_open file b p = Inr s0" and "get_digits k s0 = Inr (ds, s)"
  shows "buffer_inv s"
proof -
  from open_inv [OF assms(1)] have "reader_inv s0" by simp
  from get_digits_inv [OF assms(2) this] show ?thesis
    by (simp add: reader_inv_def buffer_inv_def)
qed

lemma fill_loads:
  assumes "mpt_reader_fill s = Inr (0, s1)" and "f s = Some fl" and "0 \<le> pos s"
  shows "0 \<le> pos s1 \<and> pos s1 < pos s
    \<and> buf_len s1 = pos s - pos s1 \<and> buf_pos s1 = buf_len s1
    \<and> take (nat (buf_len s1)) (buf s1)
        = take (nat (pos s - pos s1)) (drop (file_seek (fpos s) (pos s1)) (words fl))
    \<and> int (file_seek (fpos s) (pos s1)) + (pos s - pos s1) \<le> int (length (words fl))
    \<and> fpos s1 = file_seek (fpos s) (pos s1) + nat (pos s - pos s1)"
proof -
  define n where "n = min (pos s) MPT_MAX_BUF_LEN"
  from fill_Inr [OF assms(1,3)] assms(2) obtain limbs where
    p: "0 < pos s" and
    sr: "file_read fl (file_seek (fpos s) (pos s - n)) n = Inr limbs"
    and ll: "length limbs = nat n"
    and s1: "s1 = s\<lparr>pos := pos s - n,
                  fpos := file_seek (fpos s) (pos s - n) + length limbs,
                  buf := limbs @ drop (length limbs) (buf s),
                  buf_len := n, buf_pos := n\<rparr>"
    unfolding n_def by auto
  from p have n: "0 < n" "n \<le> MPT_MAX_BUF_LEN" "n \<le> pos s"
    by (simp_all add: n_def MPT_MAX_BUF_LEN_def)
  from file_read_Inr [OF sr n(1,2)] have
    l: "limbs = take (nat n) (drop (file_seek (fpos s) (pos s - n)) (words fl))"
    and a: "int (file_seek (fpos s) (pos s - n)) + n \<le> int (length (words fl))"
    by blast+
  have f1: "pos s1 = pos s - n" "buf_len s1 = n" "buf_pos s1 = n"
    "buf s1 = limbs @ drop (length limbs) (buf s)"
    "fpos s1 = file_seek (fpos s) (pos s - n) + length limbs"
    by (simp_all add: s1)
  have "take (nat n) (buf s1) = limbs"
    unfolding f1(4) using ll by simp
  with l have t: "take (nat n) (buf s1)
      = take (nat n) (drop (file_seek (fpos s) (pos s - n)) (words fl))"
    by simp
  have d: "pos s - (pos s - n) = n"
    by simp
  show ?thesis
    unfolding f1(1,2,3,5) d ll using n t a by simp
qed

lemma fill_range:
  assumes "mpt_reader_fill s = Inr (0, s1)" and "f s = Some fl" and "0 \<le> pos s"
    and "MPT_DISK_HEADER_SIZE + 8 * pos s < 2 ^ 63"
  shows "0 \<le> pos s1 \<and> pos s1 < pos s \<and> pos s \<le> int (length (body fl))
    \<and> buf_len s1 = pos s - pos s1 \<and> buf_pos s1 = buf_len s1
    \<and> take (nat (buf_len s1)) (buf s1) = take (nat (pos s - pos s1)) (drop (nat (pos s1)) (body fl))
    \<and> fpos s1 = 512 + nat (pos s)"
proof -
  note fl = fill_loads [OF assms(1-3)]
  from fl have p: "0 \<le> pos s1" "pos s1 < pos s" by simp_all
  then have "MPT_DISK_HEADER_SIZE + pos s1 * 8 < 2 ^ 63"
    using assms(4) by simp
  with p(1) have sk: "file_seek (fpos s) (pos s1) = 512 + nat (pos s1)"
    by (rule file_seek_ok)
  from fl have "int (512 + nat (pos s1)) + (pos s - pos s1) \<le> int (length (words fl))"
    unfolding sk by blast
  with p have le: "pos s \<le> int (length (body fl))"
    unfolding length_body by simp
  have e: "512 + nat (pos s1) + nat (pos s - pos s1) = 512 + nat (pos s)"
    using p by linarith
  from fl have bl: "buf_len s1 = pos s - pos s1" "buf_pos s1 = buf_len s1"
    by blast+
  from fl have "take (nat (buf_len s1)) (buf s1)
      = take (nat (pos s - pos s1)) (drop (512 + nat (pos s1)) (words fl))"
    unfolding sk by blast
  then have tk: "take (nat (buf_len s1)) (buf s1)
      = take (nat (pos s - pos s1)) (drop (nat (pos s1)) (body fl))"
    unfolding drop_words .
  from fl have "fpos s1 = 512 + nat (pos s1) + nat (pos s - pos s1)"
    unfolding sk by blast
  then have fp: "fpos s1 = 512 + nat (pos s)"
    unfolding e .
  from p le bl tk fp show ?thesis
    by blast
qed

lemma fill_ranges_disjoint:
  assumes "mpt_reader_fill s = Inr (0, s1)" and "pos t \<le> pos s1"
    and "mpt_reader_fill t = Inr (0, t1)" and "0 \<le> pos s" and "0 \<le> pos t"
  shows "pos t1 < pos t \<and> pos s1 < pos s \<and> {pos t1..<pos t} \<inter> {pos s1..<pos s} = {}"
  using fill_Inr [OF assms(1,4)] fill_Inr [OF assms(3,5)] assms(2)
  by (auto simp: MPT_MAX_BUF_LEN_def)

lemma far_open: "mpt_reader_open (Some far_file) 10 0 = Inr far_reader"
  by (simp add: mpt_reader_open_def open_setup_def far_file_def far_header_def base_setup_def
      limb_offset_def far_reader_def zero_reader_def BASE10_EXP_def mpt_magic_def
      MPT_TYPE_MPF_def)

lemma far_fill: "mpt_reader_fill far_reader = Inr (0, far_loaded)"
  by (simp add: mpt_reader_fill_def far_reader_def far_loaded_def zero_reader_def
      file_seek_def file_read_def far_file_def min_int64_def MPT_MAX_BUF_LEN_def
      MPT_DISK_HEADER_SIZE_def)

lemma far_fill_next: "mpt_reader_fill far_used = Inr (0, far_next)"
  by (simp add: mpt_reader_fill_def far_reader_def far_loaded_def far_used_def far_next_def
      zero_reader_def file_seek_def file_read_def far_file_def min_int64_def
      MPT_MAX_BUF_LEN_def MPT_DISK_HEADER_SIZE_def)

text \<open>
  C9, as the specification states it, has successive refills cover strictly
  decreasing file-limb ranges. \<^verbatim>\<open>mpt_reader_fill\<close> seeks to the byte offset
  \<open>4096 + 8 * pos\<close>, computed modulo \<open>2^64\<close>, and does not look at the result of the
  seek. On a file of \<open>2^21\<close> limbs whose header announces \<open>2^61 + 2^20\<close> limbs the
  first refill, at \<open>pos = 2^61\<close>, seeks to byte \<open>4096\<close> and loads the limbs
  \<open>0, \<dots>, 2^20 - 1\<close> of the file; the next one, at \<open>pos = 2^61 - 2^20\<close>, asks for a
  negative offset, stays where the first read ended, and loads the limbs
  \<open>2^20, \<dots>, 2^21 - 1\<close>: the ranges increase. (Between the two refills the calls
  of \<^verbatim>\<open>mpt_reader_get_digit\<close> change neither \<^verbatim>\<open>pos\<close> nor the position of the stream,
  by the theorem below; \<open>far_used\<close> is the reader they leave.)
\<close>

theorem refills_upwards:
  "mpt_reader_open (Some far_file) 10 0 = Inr far_reader
   \<and> mpt_reader_fill far_reader = Inr (0, far_loaded)
   \<and> pos far_used = pos far_loaded \<and> fpos far_used = fpos far_loaded
   \<and> mpt_reader_fill far_used = Inr (0, far_next)
   \<and> buf far_loaded = take 1048576 (body far_file)
   \<and> buf far_next = take 1048576 (drop 1048576 (body far_file))"
  using far_open far_fill far_fill_next
  by (simp add: far_used_def far_loaded_def far_next_def far_file_def)

text \<open>
  C9, amended. \<^verbatim>\<open>mpt_reader_open\<close> establishes
  \<open>0 \<le> buf_pos \<le> buf_len \<le> MPT_MAX_BUF_LEN\<close> and \<open>0 \<le> pos\<close>, every reader reached
  from an open by calls of \<^verbatim>\<open>mpt_reader_get_digit\<close> satisfies it, and
  \<^verbatim>\<open>mpt_reader_fill\<close> and \<^verbatim>\<open>mpt_reader_get_digit\<close> maintain it. A call of
  \<^verbatim>\<open>mpt_reader_get_digit\<close> that finds digits left in the current limb touches neither
  buffer nor position nor stream; one that needs a limb takes the limb just below the
  cursor (below the top of the new load after a refill), so the limbs of one load are
  taken at the indices \<open>buf_len - 1, buf_len - 2, \<dots>, 0\<close>. The limb indices
  \<open>pos s1, \<dots>, pos s - 1\<close> that successive refills stand for decrease strictly and do
  not overlap. A refill loads the words of the file from the place the seek has
  reached; when the byte offset \<open>4096 + 8 * pos\<close> fits the signed offset type, these
  are the limbs \<open>pos s1, \<dots>, pos s - 1\<close> of the file, so that the ranges of the file
  that successive refills cover decrease strictly and do not overlap.
\<close>

theorem buffer_invariant:
  "(mpt_reader_open file b p = Inr s0 \<longrightarrow> buffer_inv s0)
   \<and> (mpt_reader_open file b p = Inr s0 \<and> get_digits k s0 = Inr (ds, sk) \<longrightarrow> buffer_inv sk)
   \<and> (buffer_inv s \<and> mpt_reader_fill s = Inr (r, s1) \<longrightarrow> buffer_inv s1)
   \<and> (buffer_inv s \<and> mpt_reader_get_digit s = Inr (c, s2) \<longrightarrow>
       buffer_inv s2 \<and> pos s2 \<le> pos s)
   \<and> (mpt_reader_get_digit s = Inr (c, s2) \<and> cur_digit s \<noteq> 0 \<longrightarrow>
       buf_pos s2 = buf_pos s \<and> buf_len s2 = buf_len s \<and> buf s2 = buf s \<and> pos s2 = pos s
       \<and> fpos s2 = fpos s)
   \<and> (buffer_inv s \<and> mpt_reader_get_digit s = Inr (c, s2) \<and> cur_digit s = 0 \<and> 0 \<le> c \<longrightarrow>
       buf_pos s2 = (if buf_pos s = 0 then buf_len s2 else buf_pos s) - 1
       \<and> 0 \<le> buf_pos s2 \<and> nat (buf_pos s2) < length (buf s2)
       \<and> (buf_pos s \<noteq> 0 \<longrightarrow>
            buf s2 = buf s \<and> buf_len s2 = buf_len s \<and> pos s2 = pos s \<and> fpos s2 = fpos s)
       \<and> (if base s = 10
           then cur_limb10 s2 = extract10 (nat BASE10_EXP) (buf s2 ! nat (buf_pos s2))
           else cur_limb2 s2 = buf s2 ! nat (buf_pos s2)))
   \<and> (buffer_inv s \<and> buffer_inv t \<and> mpt_reader_fill s = Inr (0, s1) \<and> pos t \<le> pos s1
       \<and> mpt_reader_fill t = Inr (0, t1) \<longrightarrow>
       pos t1 < pos t \<and> pos s1 < pos s \<and> {pos t1..<pos t} \<inter> {pos s1..<pos s} = {})
   \<and> (buffer_inv s \<and> mpt_reader_fill s = Inr (0, s1) \<and> f s = Some fl \<longrightarrow>
       0 \<le> pos s1 \<and> pos s1 < pos s
       \<and> buf_len s1 = pos s - pos s1 \<and> buf_pos s1 = buf_len s1
       \<and> take (nat (buf_len s1)) (buf s1)
           = take (nat (pos s - pos s1)) (drop (file_seek (fpos s) (pos s1)) (words fl))
       \<and> int (file_seek (fpos s) (pos s1)) + (pos s - pos s1) \<le> int (length (words fl))
       \<and> fpos s1 = file_seek (fpos s) (pos s1) + nat (pos s - pos s1))
   \<and> (buffer_inv s \<and> mpt_reader_fill s = Inr (0, s1) \<and> f s = Some fl
       \<and> MPT_DISK_HEADER_SIZE + 8 * pos s < 2 ^ 63 \<longrightarrow>
       0 \<le> pos s1 \<and> pos s1 < pos s \<and> pos s \<le> int (length (body fl))
       \<and> buf_len s1 = pos s - pos s1 \<and> buf_pos s1 = buf_len s1
       \<and> take (nat (buf_len s1)) (buf s1)
           = take (nat (pos s - pos s1)) (drop (nat (pos s1)) (body fl))
       \<and> fpos s1 = 512 + nat (pos s))"
proof (intro conjI)
  have p0: "0 \<le> pos x" if "buffer_inv x" for x
    using that by (simp add: buffer_inv_def)
  show "mpt_reader_open file b p = Inr s0 \<longrightarrow> buffer_inv s0"
    using open_inv [of "file" b p s0] by (auto simp: buffer_inv_def MPT_MAX_BUF_LEN_def)
  show "mpt_reader_open file b p = Inr s0 \<and> get_digits k s0 = Inr (ds, sk) \<longrightarrow> buffer_inv sk"
    using get_digits_buffer [of "file" b p s0 k ds sk] by blast
  show "buffer_inv s \<and> mpt_reader_fill s = Inr (r, s1) \<longrightarrow> buffer_inv s1"
    using fill_inv [of s r s1] by blast
  show "buffer_inv s \<and> mpt_reader_get_digit s = Inr (c, s2) \<longrightarrow>
       buffer_inv s2 \<and> pos s2 \<le> pos s"
    using get_digit_buffer [of s c s2] by blast
  show "mpt_reader_get_digit s = Inr (c, s2) \<and> cur_digit s \<noteq> 0 \<longrightarrow>
       buf_pos s2 = buf_pos s \<and> buf_len s2 = buf_len s \<and> buf s2 = buf s \<and> pos s2 = pos s
       \<and> fpos s2 = fpos s"
    using get_digit_keeps [of s c s2] by blast
  show "buffer_inv s \<and> mpt_reader_get_digit s = Inr (c, s2) \<and> cur_digit s = 0 \<and> 0 \<le> c \<longrightarrow>
       buf_pos s2 = (if buf_pos s = 0 then buf_len s2 else buf_pos s) - 1
       \<and> 0 \<le> buf_pos s2 \<and> nat (buf_pos s2) < length (buf s2)
       \<and> (buf_pos s \<noteq> 0 \<longrightarrow>
            buf s2 = buf s \<and> buf_len s2 = buf_len s \<and> pos s2 = pos s \<and> fpos s2 = fpos s)
       \<and> (if base s = 10
           then cur_limb10 s2 = extract10 (nat BASE10_EXP) (buf s2 ! nat (buf_pos s2))
           else cur_limb2 s2 = buf s2 ! nat (buf_pos s2))"
    using get_digit_consumes [of s c s2] p0 [of s] by blast
  show "buffer_inv s \<and> buffer_inv t \<and> mpt_reader_fill s = Inr (0, s1) \<and> pos t \<le> pos s1
       \<and> mpt_reader_fill t = Inr (0, t1) \<longrightarrow>
       pos t1 < pos t \<and> pos s1 < pos s \<and> {pos t1..<pos t} \<inter> {pos s1..<pos s} = {}"
    using fill_ranges_disjoint [of s s1 t t1] p0 [of s] p0 [of t] by blast
  show "buffer_inv s \<and> mpt_reader_fill s = Inr (0, s1) \<and> f s = Some fl \<longrightarrow>
       0 \<le> pos s1 \<and> pos s1 < pos s
       \<and> buf_len s1 = pos s - pos s1 \<and> buf_pos s1 = buf_len s1
       \<and> take (nat (buf_len s1)) (buf s1)
           = take (nat (pos s - pos s1)) (drop (file_seek (fpos s) (pos s1)) (words fl))
       \<and> int (file_seek (fpos s) (pos s1)) + (pos s - pos s1) \<le> int (length (words fl))
       \<and> fpos s1 = file_seek (fpos s) (pos s1) + nat (pos s - pos s1)"
    using fill_loads [of s s1 fl] p0 [of s] by blast
  show "buffer_inv s \<and> mpt_reader_fill s = Inr (0, s1) \<and> f s = Some fl
       \<and> MPT_DISK_HEADER_SIZE + 8 * pos s < 2 ^ 63 \<longrightarrow>
       0 \<le> pos s1 \<and> pos s1 < pos s \<and> pos s \<le> int (length (body fl))
       \<and> buf_len s1 = pos s - pos s1 \<and> buf_pos s1 = buf_len s1
       \<and> take (nat (buf_len s1)) (buf s1)
           = take (nat (pos s - pos s1)) (drop (nat (pos s1)) (body fl))
       \<and> fpos s1 = 512 + nat (pos s)"
    using fill_range [of s s1 fl] p0 [of s] by blast
qed

lemma pi_digits19: "extract10 19 3141592653589793238
    = [8, 3, 2, 3, 9, 7, 9, 8, 5, 3, 5, 6, 2, 9, 5, 1, 4, 1, 3]"
  by code_simp

lemma big_open: "mpt_reader_open (Some big_file) 10 0 = Inr big_reader"
  by (simp add: mpt_reader_open_def open_setup_def big_file_def big_header_def base_setup_def
      limb_offset_def big_reader_def zero_reader_def BASE10_EXP_def mpt_magic_def
      MPT_TYPE_MPF_def)

lemma big_fill: "mpt_reader_fill big_reader = Inr (0, big_loaded)"
  by (simp add: mpt_reader_fill_def big_reader_def big_loaded_def zero_reader_def
      file_seek_def file_read_def big_file_def min_int64_def MPT_MAX_BUF_LEN_def
      MPT_DISK_HEADER_SIZE_def)

lemma big_get_digit: "mpt_reader_get_digit big_reader = Inr (3, big_next)"
proof -
  have "fetch_limb big_reader
      = Inr (Some 3141592653589793238, big_loaded\<lparr>buf_pos := 1048575\<rparr>)"
    using big_fill
    by (simp add: fetch_limb_def big_reader_def big_loaded_def zero_reader_def)
  then show ?thesis
    by (simp add: mpt_reader_get_digit_def emit10_def big_reader_def big_loaded_def
        big_next_def zero_reader_def BASE10_EXP_def pi_digits19)
qed

lemma big_fill_next: "mpt_reader_fill big_next = Inr (0, big_last)"
  by (simp add: mpt_reader_fill_def big_reader_def big_loaded_def big_next_def big_last_def
      zero_reader_def file_seek_def file_read_def big_file_def min_int64_def
      MPT_MAX_BUF_LEN_def MPT_DISK_HEADER_SIZE_def drop_Suc_Cons [symmetric]
      del: drop_Suc_Cons)

lemma big_get_digit_next: "mpt_reader_get_digit big_next = Inr (1, big_next\<lparr>cur_digit := 17\<rparr>)"
  by (simp add: mpt_reader_get_digit_def emit10_def big_reader_def big_loaded_def
      big_next_def zero_reader_def pi_digits19)

lemma big_pull: "get_digits 2 big_reader = Inr ([3, 1], big_next\<lparr>cur_digit := 17\<rparr>)"
proof -
  have "get_digits (Suc (Suc 0)) big_reader = Inr ([3, 1], big_next\<lparr>cur_digit := 17\<rparr>)"
    using big_get_digit big_get_digit_next by (simp add: get_digits_def)
  then show ?thesis
    by (simp add: numeral_2_eq_2)
qed

theorem buffer_invariant_witness:
  "mpt_reader_open (Some big_file) 10 0 = Inr big_reader
   \<and> get_digits 2 big_reader = Inr ([3, 1], big_next\<lparr>cur_digit := 17\<rparr>)
   \<and> mpt_reader_fill big_reader = Inr (0, big_loaded)
   \<and> mpt_reader_get_digit big_reader = Inr (3, big_next)
   \<and> mpt_reader_get_digit big_next = Inr (1, big_next\<lparr>cur_digit := 17\<rparr>)
   \<and> mpt_reader_fill big_next = Inr (0, big_last)
   \<and> f big_reader = Some big_file \<and> f big_next = Some big_file
   \<and> MPT_DISK_HEADER_SIZE + 8 * pos big_reader < 2 ^ 63
   \<and> MPT_DISK_HEADER_SIZE + 8 * pos big_next < 2 ^ 63
   \<and> cur_digit big_reader = 0 \<and> cur_digit big_next \<noteq> 0
   \<and> pos big_next \<le> pos big_loaded
   \<and> buffer_inv big_reader \<and> buffer_inv big_loaded \<and> buffer_inv big_next
   \<and> buffer_inv (big_next\<lparr>cur_digit := 17\<rparr>)
   \<and> buf_pos big_next = buf_len big_next - 1
   \<and> buf_pos (big_next\<lparr>cur_digit := 17\<rparr>) = buf_pos big_next
   \<and> fpos (big_next\<lparr>cur_digit := 17\<rparr>) = fpos big_next
   \<and> pos big_loaded < pos big_reader \<and> pos big_last < pos big_next
   \<and> {pos big_last..<pos big_next} \<inter> {pos big_loaded..<pos big_reader} = {}
   \<and> take (nat (buf_len big_loaded)) (buf big_loaded)
       = take (nat (pos big_reader - pos big_loaded)) (drop (nat (pos big_loaded)) (body big_file))
   \<and> fpos big_loaded = 512 + nat (pos big_reader)
   \<and> take (nat (buf_len big_last)) (buf big_last)
       = take (nat (pos big_next - pos big_last)) (drop (nat (pos big_last)) (body big_file))
   \<and> fpos big_last = 512 + nat (pos big_next)"
proof -
  have h: "f big_reader = Some big_file" "cur_digit big_reader = 0" "cur_digit big_next \<noteq> 0"
    "pos big_next \<le> pos big_loaded" "buf_pos big_reader = 0" "(0::int) \<le> 3" "(0::int) \<le> 1"
    "f big_next = Some big_file"
    "MPT_DISK_HEADER_SIZE + 8 * pos big_reader < 2 ^ 63"
    "MPT_DISK_HEADER_SIZE + 8 * pos big_next < 2 ^ 63"
    by (simp_all add: big_reader_def big_loaded_def big_next_def zero_reader_def
        MPT_MAX_BUF_LEN_def MPT_DISK_HEADER_SIZE_def)
  note a = buffer_invariant [of "Some big_file" 10 0 big_reader 2 "[3, 1]"
      "big_next\<lparr>cur_digit := 17\<rparr>" big_reader 0 big_loaded
      3 big_next big_next big_last big_file]
  note b = buffer_invariant [of "Some big_file" 10 0 big_reader 2 "[3, 1]"
      "big_next\<lparr>cur_digit := 17\<rparr>" big_next 0 big_last
      1 "big_next\<lparr>cur_digit := 17\<rparr>" big_next big_last big_file]
  from a have a0: "buffer_inv big_reader"
    using big_open by blast
  from a have ak: "buffer_inv (big_next\<lparr>cur_digit := 17\<rparr>)"
    using big_open big_pull by blast
  from a have a1: "buffer_inv big_loaded"
    using a0 big_fill by blast
  from a have a2: "buffer_inv big_next"
    using a0 big_get_digit by blast
  from a have a3: "buf_pos big_next = (if buf_pos big_reader = 0 then buf_len big_next else buf_pos big_reader) - 1"
    using a0 h(2,6) big_get_digit by blast
  from a have a5: "pos big_last < pos big_next \<and> pos big_loaded < pos big_reader
     \<and> {pos big_last..<pos big_next} \<inter> {pos big_loaded..<pos big_reader} = {}"
    using a0 a2 h(4) big_fill big_fill_next by blast
  from a have a6: "take (nat (buf_len big_loaded)) (buf big_loaded)
       = take (nat (pos big_reader - pos big_loaded)) (drop (nat (pos big_loaded)) (body big_file))
     \<and> fpos big_loaded = 512 + nat (pos big_reader)"
    using a0 h(1,9) big_fill by blast
  from b have b1: "buf_pos (big_next\<lparr>cur_digit := 17\<rparr>) = buf_pos big_next
     \<and> fpos (big_next\<lparr>cur_digit := 17\<rparr>) = fpos big_next"
    using h(3) big_get_digit_next by blast
  from b have b6: "take (nat (buf_len big_last)) (buf big_last)
       = take (nat (pos big_next - pos big_last)) (drop (nat (pos big_last)) (body big_file))
     \<and> fpos big_last = 512 + nat (pos big_next)"
    using a2 h(8,10) big_fill_next by blast
  from a0 ak a1 a2 a3 a5 a6 b1 b6 h big_open big_pull big_fill big_get_digit
    big_get_digit_next big_fill_next
  show ?thesis
    by (simp only: if_True simp_thms)
qed


subsection \<open>Streams opened at different positions\<close>

lemma length_limb_lsd:
  "b = 10 \<or> b = 2 \<or> b = 16 \<Longrightarrow>
   length (limb_lsd b a) = (if b = 10 then 19 else if b = 2 then 64 else 16)"
  by (auto simp: limb_lsd_def)

lemma fill_ok:
  assumes "f s = Some fl" "0 < pos s" "pos s \<le> int (length (body fl))"
    "MPT_DISK_HEADER_SIZE + 8 * int (length (body fl)) < 2 ^ 63"
  shows "mpt_reader_fill s = Inr (0, loaded fl s)"
proof -
  define n where "n = min (pos s) MPT_MAX_BUF_LEN"
  define q where "q = nat (pos s - n)"
  have m: "min_int64 (pos s) MPT_MAX_BUF_LEN = n"
    by (simp add: min_int64_def min_def n_def)
  have n: "0 < n" "n \<le> MPT_MAX_BUF_LEN" "n \<le> pos s"
    using assms(2) by (simp_all add: n_def MPT_MAX_BUF_LEN_def)
  then have "0 \<le> pos s - n" "MPT_DISK_HEADER_SIZE + (pos s - n) * 8 < 2 ^ 63"
    using assms(3,4) by simp_all
  then have sk: "file_seek (fpos s) (pos s - n) = 512 + q"
    unfolding q_def by (rule file_seek_ok)
  have "int (512 + q) + n \<le> int (length (words fl))"
    using assms(2,3) n unfolding length_body q_def by linarith
  then have rd: "file_read fl (512 + q) n = Inr (take (nat n) (drop q (body fl)))"
    unfolding file_read_cases [OF n(1,2)] drop_words by simp
  have "int q + n \<le> int (length (body fl))"
    using assms(3) n unfolding q_def by linarith
  then have l: "length (take (nat n) (drop q (body fl))) = nat n"
    by simp
  have fp: "512 + q + nat n = 512 + nat (pos s)"
    using n unfolding q_def by linarith
  have ne: "(n = 0) = False"
    using n(1) by simp
  have ld: "loaded fl s = s\<lparr>pos := pos s - n, fpos := 512 + nat (pos s),
       buf := take (nat n) (drop q (body fl)) @ drop (nat n) (buf s),
       buf_len := n, buf_pos := n\<rparr>"
    by (simp add: loaded_def n_def q_def)
  show ?thesis
    unfolding mpt_reader_fill_def m Let_def ld
    by (simp add: ne assms(1) sk rd l fp del: length_take length_drop)
qed

lemma loaded_fields:
  assumes "0 < pos s" "pos s \<le> int (length (body fl))"
  shows "0 < buf_pos (loaded fl s)" "nat (buf_pos (loaded fl s)) \<le> length (buf (loaded fl s))"
    "0 \<le> pos (loaded fl s)" "pos (loaded fl s) \<le> int (length (body fl))"
    "f (loaded fl s) = f s" "base (loaded fl s) = base s"
    "base2_exp (loaded fl s) = base2_exp s" "base2_mask (loaded fl s) = base2_mask s"
    "cur_digit (loaded fl s) = cur_digit s" "start_digit (loaded fl s) = start_digit s"
    "cur_limb10 (loaded fl s) = cur_limb10 s" "cur_limb2 (loaded fl s) = cur_limb2 s"
proof -
  define n where "n = min (pos s) MPT_MAX_BUF_LEN"
  have n: "0 < n" "n \<le> pos s"
    using assms(1) by (simp_all add: n_def MPT_MAX_BUF_LEN_def)
  have l: "length (take (nat n) (drop (nat (pos s - n)) (body fl))) = nat n"
    using n assms(2) by auto
  have ld: "loaded fl s = s\<lparr>pos := pos s - n, fpos := 512 + nat (pos s),
       buf := take (nat n) (drop (nat (pos s - n)) (body fl)) @ drop (nat n) (buf s),
       buf_len := n, buf_pos := n\<rparr>"
    by (simp add: loaded_def n_def)
  show "0 < buf_pos (loaded fl s)"
    using n(1) by (simp add: ld)
  show "nat (buf_pos (loaded fl s)) \<le> length (buf (loaded fl s))"
    using l by (simp add: ld del: length_take length_drop)
  show "0 \<le> pos (loaded fl s)" "pos (loaded fl s) \<le> int (length (body fl))"
    using n assms(2) by (simp_all add: ld)
  show "f (loaded fl s) = f s" "base (loaded fl s) = base s"
    "base2_exp (loaded fl s) = base2_exp s" "base2_mask (loaded fl s) = base2_mask s"
    "cur_digit (loaded fl s) = cur_digit s" "start_digit (loaded fl s) = start_digit s"
    "cur_limb10 (loaded fl s) = cur_limb10 s" "cur_limb2 (loaded fl s) = cur_limb2 s"
    by (simp_all add: ld)
qed

lemma pending_fill:
  assumes "buf_pos s = 0" "0 < pos s" "pos s \<le> int (length (body fl))"
  shows "pending fl (loaded fl s) = pending fl s"
proof -
  let ?n = "min (pos s) MPT_MAX_BUF_LEN"
  have n: "0 < ?n" "?n \<le> pos s"
    using assms(2) by (simp_all add: MPT_MAX_BUF_LEN_def)
  let ?l = "take (nat ?n) (drop (nat (pos s - ?n)) (body fl))"
  have l: "length ?l = nat ?n"
    using n assms(3) by auto
  have "nat (pos s) = nat (pos s - ?n) + nat ?n"
    using n by linarith
  then have "take (nat (pos s)) (body fl) = take (nat (pos s - ?n)) (body fl) @ ?l"
    by (simp add: take_add)
  then show ?thesis
    using l assms(1) by (simp add: pending_def loaded_def)
qed

lemma pending_dec:
  assumes "0 < buf_pos s" "nat (buf_pos s) \<le> length (buf s)"
  shows "pending fl s = buf s ! nat (buf_pos s - 1) # pending fl (s\<lparr>buf_pos := buf_pos s - 1\<rparr>)"
proof -
  have k: "nat (buf_pos s) = Suc (nat (buf_pos s - 1))"
    using assms(1) by linarith
  with assms(2) have "nat (buf_pos s - 1) < length (buf s)"
    by linarith
  then have "take (Suc (nat (buf_pos s - 1))) (buf s)
      = take (nat (buf_pos s - 1)) (buf s) @ [buf s ! nat (buf_pos s - 1)]"
    by (rule take_Suc_conv_app_nth)
  then show ?thesis
    by (simp add: pending_def k)
qed

lemma fetch_limb_stream:
  assumes "stream_inv fl s"
  shows "pending fl s = [] \<and> fetch_limb s = Inr (None, s)
    \<or> (\<exists>a s1. fetch_limb s = Inr (Some a, s1) \<and> pending fl s = a # pending fl s1
          \<and> same_cursor s s1
          \<and> 0 \<le> buf_pos s1 \<and> nat (buf_pos s1) \<le> length (buf s1)
          \<and> 0 \<le> pos s1 \<and> pos s1 \<le> int (length (body fl)))"
proof -
  from assms have i: "f s = Some fl" "0 \<le> buf_pos s" "nat (buf_pos s) \<le> length (buf s)"
    "0 \<le> pos s" "pos s \<le> int (length (body fl))"
    "MPT_DISK_HEADER_SIZE + 8 * int (length (body fl)) < 2 ^ 63"
    by (simp_all add: stream_inv_def)
  show ?thesis
  proof (cases "buf_pos s = 0")
    case False
    with i have p: "0 < buf_pos s" by simp
    have "fetch_limb s
        = Inr (Some (buf s ! nat (buf_pos s - 1)), s\<lparr>buf_pos := buf_pos s - 1\<rparr>)"
      by (rule fetch_limb_no_fill [OF p i(3)])
    moreover have "same_cursor s (s\<lparr>buf_pos := buf_pos s - 1\<rparr>)"
      by (simp add: same_cursor_def)
    moreover have "0 \<le> buf_pos (s\<lparr>buf_pos := buf_pos s - 1\<rparr>)"
      "nat (buf_pos (s\<lparr>buf_pos := buf_pos s - 1\<rparr>)) \<le> length (buf (s\<lparr>buf_pos := buf_pos s - 1\<rparr>))"
      "0 \<le> pos (s\<lparr>buf_pos := buf_pos s - 1\<rparr>)"
      "pos (s\<lparr>buf_pos := buf_pos s - 1\<rparr>) \<le> int (length (body fl))"
      using p i by simp_all
    ultimately show ?thesis
      using pending_dec [OF p i(3), of fl] by blast
  next
    case True
    show ?thesis
    proof (cases "pos s = 0")
      case z: True
      then have "mpt_reader_fill s = Inr (- 1, s)"
        by (simp add: mpt_reader_fill_def min_int64_def MPT_MAX_BUF_LEN_def)
      with True z show ?thesis
        by (simp add: fetch_limb_def pending_def)
    next
      case False
      with i have p: "0 < pos s" by simp
      define s0 where "s0 = loaded fl s"
      note lf = loaded_fields [OF p i(5), folded s0_def]
      have fl0: "mpt_reader_fill s = Inr (0, s0)"
        unfolding s0_def by (rule fill_ok [OF i(1) p i(5,6)])
      have fe: "fetch_limb s
          = Inr (Some (buf s0 ! nat (buf_pos s0 - 1)), s0\<lparr>buf_pos := buf_pos s0 - 1\<rparr>)"
        by (rule fetch_limb_fill [OF True fl0 lf(1,2)])
      have pe: "pending fl s
          = buf s0 ! nat (buf_pos s0 - 1) # pending fl (s0\<lparr>buf_pos := buf_pos s0 - 1\<rparr>)"
        using pending_fill [OF True p i(5)] pending_dec [OF lf(1,2), of fl]
        by (simp add: s0_def)
      have "same_cursor s (s0\<lparr>buf_pos := buf_pos s0 - 1\<rparr>)"
        using lf by (simp add: same_cursor_def)
      moreover have "0 \<le> buf_pos (s0\<lparr>buf_pos := buf_pos s0 - 1\<rparr>)"
        "nat (buf_pos (s0\<lparr>buf_pos := buf_pos s0 - 1\<rparr>)) \<le> length (buf (s0\<lparr>buf_pos := buf_pos s0 - 1\<rparr>))"
        "0 \<le> pos (s0\<lparr>buf_pos := buf_pos s0 - 1\<rparr>)"
        "pos (s0\<lparr>buf_pos := buf_pos s0 - 1\<rparr>) \<le> int (length (body fl))"
        using lf by simp_all
      ultimately show ?thesis
        using fe pe by blast
    qed
  qed
qed


lemma rev_take_Suc: "k < length xs \<Longrightarrow> rev (take (Suc k) xs) = xs ! k # rev (take k xs)"
  by (simp add: take_Suc_conv_app_nth)

lemma rest_emit:
  assumes "cur_lsd s' = cur_lsd s" "pending fl s' = pending fl s" "base s' = base s"
    "start_digit s' = start_digit s" "digit_bits s' = digit_bits s"
    and "nat (cur_digit s div digit_bits s) = Suc k"
    and "nat (cur_digit s' div digit_bits s) = k"
    and "k < length (cur_lsd s)"
  shows "rest fl s = cur_lsd s ! k # rest fl s'"
  using assms by (simp add: rest_def rev_take_Suc)

lemma rest_load:
  assumes "pending fl s = a # pending fl s1" "cur_digit s = 0"
    and "cur_lsd sL = limb_lsd (base s) a" "pending fl sL = pending fl s1" "base sL = base s"
    "start_digit sL = 0" "digit_bits sL = digit_bits s"
    and "nat (cur_digit sL div digit_bits s) + nat (start_digit s div digit_bits s)
           = length (limb_lsd (base s) a)"
  shows "rest fl sL = rest fl s"
proof -
  let ?xs = "limb_lsd (base s) a"
  let ?j = "nat (start_digit s div digit_bits s)"
  let ?C = "concat (map (limb_digits (base s)) (pending fl s1))"
  have "rest fl s = drop ?j (rev ?xs @ ?C)"
    using assms(1,2) by (simp add: rest_def limb_digits_def)
  also have "\<dots> = drop ?j (rev ?xs) @ ?C"
    using assms(8) by simp
  also have "drop ?j (rev ?xs) = rev (take (length ?xs - ?j) ?xs)"
    by (simp add: drop_rev)
  also have "length ?xs - ?j = nat (cur_digit sL div digit_bits s)"
    using assms(8) by linarith
  finally show ?thesis
    using assms(3-7) by (simp add: rest_def)
qed

lemma emit10_stream:
  assumes "stream_inv fl s" "cur_digit s \<noteq> 0" "base s = 10"
  shows "\<exists>d s'. emit10 s = Inr (d, s') \<and> stream_inv fl s' \<and> rest fl s = d # rest fl s' \<and> 0 \<le> d"
proof -
  define s' where "s' = s\<lparr>cur_digit := cur_digit s - 1\<rparr>"
  from assms have i: "0 < cur_digit s" "cur_digit s \<le> 19" "length (cur_limb10 s) = 19"
    "start_digit s = 0"
    by (auto simp: stream_inv_def limb_bits_def)
  then have k: "nat (cur_digit s - 1) < length (cur_limb10 s)" "0 \<le> cur_digit s - 1"
    by linarith+
  then have e: "emit10 s = Inr (uint (cur_limb10 s ! nat (cur_digit s - 1)), s')"
    unfolding emit10_def Let_def s'_def by simp
  have inv: "stream_inv fl s'"
    using assms(1,3) i by (simp add: stream_inv_def s'_def limb_bits_def digit_bits_def)
  have "rest fl s = cur_lsd s ! nat (cur_digit s - 1) # rest fl s'"
  proof (rule rest_emit)
    show "nat (cur_digit s div digit_bits s) = Suc (nat (cur_digit s - 1))"
      using i(1) assms(3) by (simp add: digit_bits_def)
    show "nat (cur_digit s' div digit_bits s) = nat (cur_digit s - 1)"
      using assms(3) by (simp add: digit_bits_def s'_def)
    show "nat (cur_digit s - 1) < length (cur_lsd s)"
      using k(1) assms(3) by (simp add: cur_lsd_def)
  qed (simp_all add: s'_def cur_lsd_def pending_def digit_bits_def)
  moreover have "cur_lsd s ! nat (cur_digit s - 1) = uint (cur_limb10 s ! nat (cur_digit s - 1))"
    using k(1) assms(3) by (simp add: cur_lsd_def)
  ultimately show ?thesis
    using e inv by simp
qed

lemma emit2_stream:
  assumes "stream_inv fl s" "cur_digit s \<noteq> 0" "base s \<noteq> 10"
  shows "\<exists>d s'. emit2 s = Inr (d, s') \<and> stream_inv fl s' \<and> rest fl s = d # rest fl s' \<and> 0 \<le> d"
proof -
  define s' where "s' = s\<lparr>cur_digit := cur_digit s - base2_exp s\<rparr>"
  define k where "k = nat (cur_digit s div base2_exp s) - 1"
  from assms have b: "base s = 2 \<and> base2_exp s = 1 \<and> base2_mask s = 1
        \<or> base s = 16 \<and> base2_exp s = 4 \<and> base2_mask s = 15"
    by (auto simp: stream_inv_def)
  from assms have i: "0 < cur_digit s" "cur_digit s \<le> 64" "base2_exp s dvd cur_digit s"
    "start_digit s = 0"
    by (auto simp: stream_inv_def limb_bits_def digit_bits_def)
  from i(3) obtain q where q: "cur_digit s = base2_exp s * q" ..
  with b i(1,2) have qb: "0 < q" "base2_exp s * q \<le> 64"
    by auto
  have cd': "cur_digit s - base2_exp s = base2_exp s * (q - 1)"
    using q by (simp add: algebra_simps)
  from b qb have g: "0 \<le> cur_digit s - base2_exp s" "cur_digit s - base2_exp s < 64"
    unfolding cd' by auto
  then have e: "emit2 s = Inr (digit2 (base2_mask s) (cur_limb2 s)
      (nat (cur_digit s - base2_exp s)), s')"
    unfolding emit2_def Let_def s'_def by simp
  have inv: "stream_inv fl s'"
    using assms(1,3) i g b unfolding cd' 
    by (auto simp: stream_inv_def s'_def limb_bits_def digit_bits_def cd')
  have kq: "k = nat (q - 1)" "nat (cur_digit s div base2_exp s) = Suc k"
    "nat ((cur_digit s - base2_exp s) div base2_exp s) = k"
    using b qb unfolding k_def q cd' by auto
  have kl: "k < length (cur_lsd s)"
    using b qb assms(3) unfolding kq(1) by (auto simp: cur_lsd_def)
  have "rest fl s = cur_lsd s ! k # rest fl s'"
  proof (rule rest_emit)
    show "nat (cur_digit s div digit_bits s) = Suc k"
      using kq(2) assms(3) by (simp add: digit_bits_def)
    show "nat (cur_digit s' div digit_bits s) = k"
      using kq(3) assms(3) by (simp add: digit_bits_def s'_def)
    show "k < length (cur_lsd s)" by (rule kl)
  qed (simp_all add: s'_def cur_lsd_def pending_def digit_bits_def)
  moreover have "cur_lsd s ! k = digit2 (base2_mask s) (cur_limb2 s)
      (nat (cur_digit s - base2_exp s))"
  proof -
    have "nat (base2_exp s * (q - 1)) = nat (base2_exp s) * nat (q - 1)"
      using b by (auto simp: nat_mult_distrib)
    then have sh: "nat (cur_digit s - base2_exp s) = nat (base2_exp s) * k"
      unfolding cd' kq(1) .
    have "cur_lsd s ! k = digit2 (base2_mask s) (cur_limb2 s) (nat (base2_exp s) * k)"
      using b kl by (auto simp: cur_lsd_def)
    then show ?thesis
      unfolding sh .
  qed
  moreover have "0 \<le> digit2 (base2_mask s) (cur_limb2 s) (nat (cur_digit s - base2_exp s))"
    using digit2_range [of "base2_mask s"] b by auto
  ultimately show ?thesis
    using e inv by simp
qed


lemma limb_lsd_length10: "length (limb_lsd 10 a) = 19"
  by (simp add: limb_lsd_def)

lemma load10_stream:
  assumes "stream_inv fl s" "cur_digit s = 0" "base s = 10"
    and "pending fl s = a # pending fl s1" "same_cursor s s1"
    and "0 \<le> buf_pos s1" "nat (buf_pos s1) \<le> length (buf s1)"
      "0 \<le> pos s1" "pos s1 \<le> int (length (body fl))"
    and "sL = s1\<lparr>cur_limb10 := extract10 (nat BASE10_EXP) a,
                  cur_digit := BASE10_EXP - start_digit s1, start_digit := 0\<rparr>"
  shows "stream_inv fl sL \<and> cur_digit sL \<noteq> 0 \<and> base sL = 10 \<and> rest fl sL = rest fl s"
proof -
  from assms(1,3) have i: "0 \<le> start_digit s" "start_digit s < 19"
    "MPT_DISK_HEADER_SIZE + 8 * int (length (body fl)) < 2 ^ 63" "f s = Some fl"
    by (auto simp: stream_inv_def limb_bits_def)
  from assms(5) have c: "f s1 = f s" "base s1 = base s" "start_digit s1 = start_digit s"
    by (simp_all add: same_cursor_def)
  have inv: "stream_inv fl sL"
    using i c assms(3,6-9)
    by (simp add: stream_inv_def assms(10) limb_bits_def digit_bits_def BASE10_EXP_def)
  have cd: "cur_digit sL = 19 - start_digit s" "base sL = 10"
    using c assms(3) by (simp_all add: assms(10) BASE10_EXP_def)
  have "rest fl sL = rest fl s"
  proof (rule rest_load [OF assms(4) assms(2)])
    show "cur_lsd sL = limb_lsd (base s) a"
      using c assms(3) by (simp add: cur_lsd_def limb_lsd_def assms(10) BASE10_EXP_def)
    show "pending fl sL = pending fl s1"
      by (simp add: pending_def assms(10))
    show "base sL = base s" "start_digit sL = 0" "digit_bits sL = digit_bits s"
      using c assms(3) by (simp_all add: assms(10) digit_bits_def)
    show "nat (cur_digit sL div digit_bits s) + nat (start_digit s div digit_bits s)
           = length (limb_lsd (base s) a)"
      using i(1,2) assms(3) cd(1) by (simp add: digit_bits_def limb_lsd_length10)
  qed
  with inv cd i(2) show ?thesis by simp
qed

lemma load2_stream:
  assumes "stream_inv fl s" "cur_digit s = 0" "base s \<noteq> 10"
    and "pending fl s = a # pending fl s1" "same_cursor s s1"
    and "0 \<le> buf_pos s1" "nat (buf_pos s1) \<le> length (buf s1)"
      "0 \<le> pos s1" "pos s1 \<le> int (length (body fl))"
    and "sL = s1\<lparr>cur_limb2 := a, cur_digit := 64 - start_digit s1, start_digit := 0\<rparr>"
  shows "stream_inv fl sL \<and> cur_digit sL \<noteq> 0 \<and> base sL \<noteq> 10 \<and> rest fl sL = rest fl s"
proof -
  from assms(1,3) have b: "base s = 2 \<and> base2_exp s = 1 \<and> base2_mask s = 1
        \<or> base s = 16 \<and> base2_exp s = 4 \<and> base2_mask s = 15"
    by (auto simp: stream_inv_def)
  from assms(1,3) have i: "0 \<le> start_digit s" "start_digit s < 64"
    "base2_exp s dvd start_digit s"
    "MPT_DISK_HEADER_SIZE + 8 * int (length (body fl)) < 2 ^ 63" "f s = Some fl"
    by (auto simp: stream_inv_def limb_bits_def digit_bits_def)
  from assms(5) have c: "f s1 = f s" "base s1 = base s" "start_digit s1 = start_digit s"
    "base2_exp s1 = base2_exp s" "base2_mask s1 = base2_mask s"
    by (simp_all add: same_cursor_def)
  from i(3) obtain q where q: "start_digit s = base2_exp s * q" ..
  have dv: "base2_exp s dvd 64 - start_digit s"
    using b i(3) by auto
  have inv: "stream_inv fl sL"
    using i c b assms(3,6-9) dv
    by (auto simp: stream_inv_def assms(10) limb_bits_def digit_bits_def)
  have cd: "cur_digit sL = 64 - start_digit s" "base sL \<noteq> 10"
    using c assms(3) by (simp_all add: assms(10))
  have "rest fl sL = rest fl s"
  proof (rule rest_load [OF assms(4) assms(2)])
    show "cur_lsd sL = limb_lsd (base s) a"
      using c b by (auto simp: cur_lsd_def limb_lsd_def assms(10))
    show "pending fl sL = pending fl s1"
      by (simp add: pending_def assms(10))
    show "base sL = base s" "start_digit sL = 0" "digit_bits sL = digit_bits s"
      using c by (simp_all add: assms(10) digit_bits_def)
    show "nat (cur_digit sL div digit_bits s) + nat (start_digit s div digit_bits s)
           = length (limb_lsd (base s) a)"
      using i(1,2) b cd(1) unfolding q by (auto simp: digit_bits_def limb_lsd_def)
  qed
  with inv cd i(2) show ?thesis by simp
qed

lemma get_digit_stream:
  assumes "stream_inv fl s"
  shows "rest fl s = [] \<and> mpt_reader_get_digit s = Inr (- 1, s)
    \<or> (\<exists>d s'. mpt_reader_get_digit s = Inr (d, s') \<and> stream_inv fl s'
          \<and> rest fl s = d # rest fl s' \<and> 0 \<le> d)"
proof (cases "cur_digit s = 0")
  case False
  show ?thesis
  proof (cases "base s = 10")
    case True
    from emit10_stream [OF assms False True] False True show ?thesis
      by (simp add: mpt_reader_get_digit_def)
  next
    case b: False
    from emit2_stream [OF assms False b] False b show ?thesis
      by (simp add: mpt_reader_get_digit_def)
  qed
next
  case z: True
  from fetch_limb_stream [OF assms] show ?thesis
  proof (elim disjE exE conjE)
    assume "pending fl s = []" "fetch_limb s = Inr (None, s)"
    with z have "rest fl s = []" "mpt_reader_get_digit s = Inr (- 1, s)"
      by (simp_all add: rest_def mpt_reader_get_digit_def)
    then show ?thesis by simp
  next
    fix a s1
    assume fe: "fetch_limb s = Inr (Some a, s1)" and pe: "pending fl s = a # pending fl s1"
      and sc: "same_cursor s s1"
      and bf: "0 \<le> buf_pos s1" "nat (buf_pos s1) \<le> length (buf s1)"
        "0 \<le> pos s1" "pos s1 \<le> int (length (body fl))"
    show ?thesis
    proof (cases "base s = 10")
      case True
      define sL where "sL = s1\<lparr>cur_limb10 := extract10 (nat BASE10_EXP) a,
                  cur_digit := BASE10_EXP - start_digit s1, start_digit := 0\<rparr>"
      from load10_stream [OF assms z True pe sc bf sL_def]
      have l: "stream_inv fl sL" "cur_digit sL \<noteq> 0" "base sL = 10" "rest fl sL = rest fl s"
        by simp_all
      have "mpt_reader_get_digit s = emit10 sL"
        using z True fe by (simp add: mpt_reader_get_digit_def sL_def)
      with emit10_stream [OF l(1-3)] l(4) show ?thesis
        by auto
    next
      case b: False
      define sL where "sL = s1\<lparr>cur_limb2 := a, cur_digit := 64 - start_digit s1,
                  start_digit := 0\<rparr>"
      from load2_stream [OF assms z b pe sc bf sL_def]
      have l: "stream_inv fl sL" "cur_digit sL \<noteq> 0" "base sL \<noteq> 10" "rest fl sL = rest fl s"
        by simp_all
      have "mpt_reader_get_digit s = emit2 sL"
        using z b fe by (simp add: mpt_reader_get_digit_def sL_def)
      with emit2_stream [OF l(1-3)] l(4) show ?thesis
        by auto
    qed
  qed
qed

lemma get_digits_stream:
  assumes "stream_inv fl s"
  shows "\<exists>s'. get_digits k s = Inr (take k (rest fl s), s') \<and> stream_inv fl s'"
  using assms
proof (induction k arbitrary: s)
  case 0
  then show ?case by (simp add: get_digits_def)
next
  case (Suc k)
  from get_digit_stream [OF Suc.prems] show ?case
  proof (elim disjE exE conjE)
    assume "rest fl s = []" "mpt_reader_get_digit s = Inr (- 1, s)"
    with Suc.prems show ?thesis
      by (simp add: get_digits_def)
  next
    fix d s1
    assume g: "mpt_reader_get_digit s = Inr (d, s1)" and i: "stream_inv fl s1"
      and r: "rest fl s = d # rest fl s1" and d: "0 \<le> d"
    from Suc.IH [OF i] obtain s' where
      "get_digits k s1 = Inr (take k (rest fl s1), s')" "stream_inv fl s'"
      by blast
    with g r d show ?thesis
      by (simp add: get_digits_def)
  qed
qed


lemma length_limb_digits:
  "b = 10 \<or> b = 2 \<or> b = 16 \<Longrightarrow> length (limb_digits b a) = digits_per_limb b"
  by (auto simp: limb_digits_def limb_lsd_def digits_per_limb_def)

lemma length_concat_const:
  assumes "\<And>a. length (g a) = N"
  shows "length (concat (map g xs)) = N * length xs"
  by (induction xs) (simp_all add: assms)

lemma drop_concat_limbs:
  fixes N :: nat
  assumes len: "\<And>a. length (g a) = N" and "0 < N" and "Lq \<le> length xs" and "P div N < Lq"
  shows "drop P (concat (map g (rev (take Lq xs))))
       = drop (P mod N) (concat (map g (rev (take (Lq - P div N) xs))))"
proof -
  let ?q = "P div N"
  let ?top = "take ?q (drop (Lq - ?q) xs)"
  have "Lq = (Lq - ?q) + ?q"
    using assms(4) by simp
  then have "take Lq xs = take (Lq - ?q) xs @ ?top"
    by (metis take_add)
  then have c: "concat (map g (rev (take Lq xs)))
      = concat (map g (rev ?top)) @ concat (map g (rev (take (Lq - ?q) xs)))"
    by simp
  have "length ?top = ?q"
    using assms(3,4) by simp
  then have l: "length (concat (map g (rev ?top))) = N * ?q"
    using length_concat_const [of g N "rev ?top"] len by simp
  have "P - N * ?q = P mod N"
    by (simp add: minus_mult_div_eq_mod)
  moreover have "N * ?q \<le> P"
    by simp
  ultimately show ?thesis
    unfolding c using l by simp
qed

lemma length_fraction_digits:
  assumes "b = 10 \<or> b = 2 \<or> b = 16"
    and "uint (len hdr) - sint (expn hdr) \<le> int (length (body fl))"
  shows "length (fraction_digits b hdr fl)
       = digits_per_limb b * nat (uint (len hdr) - sint (expn hdr))"
proof -
  have "length (take (nat (uint (len hdr) - sint (expn hdr))) (body fl))
      = nat (uint (len hdr) - sint (expn hdr))"
    using assms(2) by simp
  then show ?thesis
    unfolding fraction_digits_def
    using length_concat_const [of "limb_digits b" "digits_per_limb b"]
      length_limb_digits [OF assms(1)]
    by simp
qed

lemma open_stream:
  assumes "header fl = Some hdr" "magic hdr = mpt_magic" "type hdr = MPT_TYPE_MPF"
    "0 \<le> sint (expn hdr)"
    and "uint (len hdr) - sint (expn hdr) \<le> int (length (body fl))"
    and "MPT_DISK_HEADER_SIZE + 8 * int (length (body fl)) < 2 ^ 63"
    and "b = 10 \<or> b = 2 \<or> b = 16"
    and "0 \<le> p" "(if b = 16 then 4 else 1) * p < 2 ^ 63"
    and "sint (expn hdr) \<le> uint (len hdr)"
  shows "(nat p < length (fraction_digits b hdr fl) \<longrightarrow>
          (\<exists>s. mpt_reader_open (Some fl) b p = Inr s \<and> stream_inv fl s
             \<and> rest fl s = drop (nat p) (fraction_digits b hdr fl)))
       \<and> (length (fraction_digits b hdr fl) \<le> nat p \<longrightarrow>
          mpt_reader_open (Some fl) b p = Inl PositionOutOfRangeError)"
proof -
  define L where "L = uint (len hdr) - sint (expn hdr)"
  define N where "N = digits_per_limb b"
  obtain dpl e m sp :: int where c: "b = 10 \<and> dpl = 19 \<and> e = 0 \<and> m = 0 \<and> sp = p
       \<or> b = 2 \<and> dpl = 64 \<and> e = 1 \<and> m = 1 \<and> sp = p
       \<or> b = 16 \<and> dpl = 64 \<and> e = 4 \<and> m = 15 \<and> sp = 4 * p"
    using assms(7) by auto
  define s0 where "s0 = zero_reader\<lparr>f := Some fl, fpos := 7, h := hdr, base2_exp := e,
                       base2_mask := m, base := b, buf_len := 0, buf_pos := 0,
                       pos := limb_offset hdr sp dpl,
                       start_digit := sp mod dpl\<rparr>"
  have N0: "0 < N" "N = 19 \<or> N = 64 \<or> N = 16"
    using assms(7) by (auto simp: N_def digits_per_limb_def)
  have q: "sp div dpl = p div int N" "0 \<le> sp" "0 < dpl"
    using c assms(8) by (auto simp: N_def digits_per_limb_def)
  have m16: "4 * p mod 64 = 4 * (p mod 16)"
    using mult_mod_right [of 4 p 16] by simp
  then have "(4 * p mod 64) div 4 = p mod 16"
    by simp
  then have sd: "nat ((sp mod dpl) div (if b = 10 then 1 else e)) = nat p mod N"
    using c assms(8) by (auto simp: N_def digits_per_limb_def nat_mod_distrib)
  have u0: "0 \<le> uint (len hdr)"
    by simp
  have s63: "sint (expn hdr) < 2 ^ 63"
    using sint_lt [of "expn hdr"] by simp
  have Lb1: "L < 2 ^ 60"
    using assms(5,6) by (simp add: L_def MPT_DISK_HEADER_SIZE_def)
  have Lb2: "0 \<le> L"
    unfolding L_def using assms(10) by linarith
  note Lb = Lb1 Lb2
  have p63: "p < 2 ^ 63"
    using assms(8,9) by (auto split: if_splits)
  have sp63: "in_int64 sp"
    using c assms(8,9) by (auto simp: in_int64_def)
  have "p div int N \<le> p"
    using zdiv_mono2 [of p 1 "int N"] assms(8) N0(1) by simp
  with p63 have qb: "0 \<le> p div int N" "p div int N < 2 ^ 63"
    using assms(8) N0(1) by (simp_all add: pos_imp_zdiv_nonneg_iff)
  have "in_int64 (uint (len hdr) - sint (expn hdr) - sp sdiv dpl)"
    using Lb qb q sdiv_nonneg [OF q(2,3)] by (simp add: in_int64_def L_def)
  from limb_offset_exact [OF this] have lo: "limb_offset hdr sp dpl = L - p div int N"
    using q sdiv_nonneg [OF q(2,3)] by (simp add: L_def)
  have op: "mpt_reader_open (Some fl) b p =
     (if L - p div int N \<le> 0 then Inl PositionOutOfRangeError else Inr s0)"
    using open_valid_header [OF assms(1-4) c sp63] lo smod_nonneg [OF q(2,3)]
    by (simp add: s0_def)
  have lenD: "length (fraction_digits b hdr fl) = N * nat L"
    using length_fraction_digits [OF assms(7,5)] by (simp add: N_def L_def)
  have ndiv: "nat p div N = nat (p div int N)"
    using assms(8) by (simp add: nat_div_distrib)
  have iff: "nat p < N * nat L \<longleftrightarrow> 0 < L - p div int N"
  proof -
    have "nat p < N * nat L \<longleftrightarrow> nat p div N < nat L"
      using N0(1) by (simp add: less_mult_imp_div_less div_less_iff_less_mult mult.commute)
    also have "nat p div N = nat (p div int N)"
      using assms(8) by (simp add: nat_div_distrib)
    also have "nat (p div int N) < nat L \<longleftrightarrow> p div int N < L"
      using qb(1) by auto
    finally show ?thesis by auto
  qed
  show ?thesis
  proof (intro conjI impI)
    assume "length (fraction_digits b hdr fl) \<le> nat p"
    with lenD iff op show "mpt_reader_open (Some fl) b p = Inl PositionOutOfRangeError"
      by auto
  next
    assume "nat p < length (fraction_digits b hdr fl)"
    with lenD iff have pos: "0 < L - p div int N" by simp
    with op have o: "mpt_reader_open (Some fl) b p = Inr s0" by simp
    have f0: "f s0 = Some fl" "base s0 = b" "buf_pos s0 = 0" "buf s0 = []"
      "pos s0 = L - p div int N" "cur_digit s0 = 0" "start_digit s0 = sp mod dpl"
      "base2_exp s0 = e" "base2_mask s0 = m" "length (cur_limb10 s0) = 19"
      by (simp_all add: s0_def lo zero_reader_def)
    have pl: "pos s0 \<le> int (length (body fl))"
      using qb(1) assms(5) by (simp add: f0 L_def)
    have dv: "(if b = 10 then 1 else e) dvd sp mod dpl"
      using c m16 by auto
    have inv: "stream_inv fl s0"
      unfolding stream_inv_def limb_bits_def digit_bits_def f0
      using c assms(6) pos pl f0(5) dv by auto
    have pe: "pending fl s0 = rev (take (nat (L - p div int N)) (body fl))"
      by (simp add: pending_def f0)
    have "rest fl s0 = drop (nat p mod N)
        (concat (map (limb_digits b) (rev (take (nat (L - p div int N)) (body fl)))))"
    proof -
      have "nat (start_digit s0 div digit_bits s0) = nat p mod N"
        using sd by (cases "b = 10") (simp_all add: digit_bits_def f0)
      then show ?thesis
        unfolding rest_def pe by (simp add: f0(2,6))
    qed
    also have "nat (L - p div int N) = nat L - nat p div N"
      unfolding ndiv using qb(1) pos by linarith
    also have "drop (nat p mod N)
        (concat (map (limb_digits b) (rev (take (nat L - nat p div N) (body fl)))))
      = drop (nat p) (concat (map (limb_digits b) (rev (take (nat L) (body fl)))))"
    proof (rule drop_concat_limbs [symmetric])
      show "length (limb_digits b a) = N" for a
        using length_limb_digits [OF assms(7)] by (simp add: N_def)
      show "0 < N" by (rule N0(1))
      show "nat L \<le> length (body fl)"
        using assms(5) by (simp add: L_def)
      show "nat p div N < nat L"
        unfolding ndiv using pos qb(1) by linarith
    qed
    finally have "rest fl s0 = drop (nat p) (fraction_digits b hdr fl)"
      by (simp add: fraction_digits_def L_def)
    with o inv show "\<exists>s. mpt_reader_open (Some fl) b p = Inr s \<and> stream_inv fl s
             \<and> rest fl s = drop (nat p) (fraction_digits b hdr fl)"
      by blast
  qed
qed


lemma open_pull_digits:
  assumes "header fl = Some hdr" "magic hdr = mpt_magic" "type hdr = MPT_TYPE_MPF"
    "0 \<le> sint (expn hdr)"
    and "uint (len hdr) - sint (expn hdr) \<le> int (length (body fl))"
    and "MPT_DISK_HEADER_SIZE + 8 * int (length (body fl)) < 2 ^ 63"
    and "b = 10 \<or> b = 2 \<or> b = 16"
    and "0 \<le> p" "(if b = 16 then 4 else 1) * p < 2 ^ 63"
    and "sint (expn hdr) \<le> uint (len hdr)"
  shows "open_pull mpt_reader_get_digit (Some fl) b p k =
     (if nat p < length (fraction_digits b hdr fl)
      then Inr (Inr (take k (drop (nat p) (fraction_digits b hdr fl))))
      else Inl PositionOutOfRangeError)"
proof (cases "nat p < length (fraction_digits b hdr fl)")
  case False
  with open_stream [OF assms] have "mpt_reader_open (Some fl) b p = Inl PositionOutOfRangeError"
    by simp
  with False show ?thesis
    by (simp add: open_pull_def)
next
  case True
  with open_stream [OF assms] obtain s where
    o: "mpt_reader_open (Some fl) b p = Inr s" and i: "stream_inv fl s"
    and r: "rest fl s = drop (nat p) (fraction_digits b hdr fl)"
    by blast
  from get_digits_stream [OF i, of k] obtain s' where
    "get_digits k s = Inr (take k (rest fl s), s')"
    by blast
  with o r True show ?thesis
    by (simp add: open_pull_def get_digits_def)
qed

lemma pull_past_end:
  assumes "pull step m s = Inr (ds, s')" and "length ds < m" and "m \<le> k"
  shows "pull step k s = Inr (ds, s')"
  using assms
proof (induction m arbitrary: k s ds)
  case 0
  then show ?case by simp
next
  case (Suc m)
  from Suc.prems(3) obtain k' where k: "k = Suc k'" and mk: "m \<le> k'"
    by (cases k) simp_all
  from Suc.prems(1) obtain c s1 where g: "step s = Inr (c, s1)"
    by (auto split: sum.splits)
  show ?case
  proof (cases "c < 0")
    case True
    with g Suc.prems(1) show ?thesis
      unfolding k by simp
  next
    case False
    with g Suc.prems(1) obtain cs where p: "pull step m s1 = Inr (cs, s')" and d: "ds = c # cs"
      by (auto split: sum.splits)
    from d Suc.prems(2) have "length cs < m" by simp
    from Suc.IH [OF p this mk] g False d show ?thesis
      unfolding k by simp
  qed
qed

lemma two_hex: "pull mpt_reader_get_digit 33
      (zero_reader\<lparr>f := Some two_file, fpos := 7, h := two_header, base2_exp := 4,
         base2_mask := 15, base := 16, pos := 2\<rparr>)
    = Inr ([2, 11, 9, 9, 2, 13, 13, 15, 10, 2, 3, 2, 4, 9, 13, 6,
            4, 0, 3, 4, 6, 5, 0, 15, 1, 12, 9, 8, 11, 13, 6, 9],
           zero_reader\<lparr>f := Some two_file, fpos := 514, h := two_header, base2_exp := 4,
             base2_mask := 15, base := 16,
             buf := [4626433832795028841, 3141592653589793238], buf_len := 2,
             cur_limb2 := 4626433832795028841\<rparr>)"
  by code_simp

lemma two_open16: "mpt_reader_open (Some two_file) 16 0
    = Inr (zero_reader\<lparr>f := Some two_file, fpos := 7, h := two_header, base2_exp := 4,
         base2_mask := 15, base := 16, pos := 2\<rparr>)"
  by code_simp

text \<open>
  C1, as the specification states it, holds for every start position and count. In
  base 16 \<^verbatim>\<open>mpt_reader_open\<close> multiplies the start position by 4: from \<open>2^61\<close> on the
  product does not fit \<^verbatim>\<open>int64_t\<close> and the behaviour is undefined. On the file of
  two limbs, with \<open>p = 0\<close>, \<open>j = 2^61\<close> and \<open>k = 2^61 + 1\<close>, the stream opened at \<open>p\<close>
  produces the 32 digits of the file and ends; the open at \<open>p + j\<close> neither produces
  the empty sequence that is left of them nor refuses the position.
\<close>

theorem position_beyond_int64:
  "open_pull mpt_reader_get_digit (Some two_file) 16 0 (2 ^ 61 + 1)
     = Inr (Inr [2, 11, 9, 9, 2, 13, 13, 15, 10, 2, 3, 2, 4, 9, 13, 6,
                 4, 0, 3, 4, 6, 5, 0, 15, 1, 12, 9, 8, 11, 13, 6, 9])
   \<and> open_pull mpt_reader_get_digit (Some two_file) 16 (0 + int (2 ^ 61))
       (2 ^ 61 + 1 - 2 ^ 61) = Inl OpenUndefined"
proof -
  have "(33::nat) \<le> 2 ^ 61 + 1"
    by simp
  from pull_past_end [OF two_hex _ this]
  have "pull mpt_reader_get_digit (2 ^ 61 + 1)
      (zero_reader\<lparr>f := Some two_file, fpos := 7, h := two_header, base2_exp := 4,
         base2_mask := 15, base := 16, pos := 2\<rparr>)
    = Inr ([2, 11, 9, 9, 2, 13, 13, 15, 10, 2, 3, 2, 4, 9, 13, 6,
            4, 0, 3, 4, 6, 5, 0, 15, 1, 12, 9, 8, 11, 13, 6, 9],
           zero_reader\<lparr>f := Some two_file, fpos := 514, h := two_header, base2_exp := 4,
             base2_mask := 15, base := 16,
             buf := [4626433832795028841, 3141592653589793238], buf_len := 2,
             cur_limb2 := 4626433832795028841\<rparr>)"
    by simp
  then have a: "open_pull mpt_reader_get_digit (Some two_file) 16 0 (2 ^ 61 + 1)
     = Inr (Inr [2, 11, 9, 9, 2, 13, 13, 15, 10, 2, 3, 2, 4, 9, 13, 6,
                 4, 0, 3, 4, 6, 5, 0, 15, 1, 12, 9, 8, 11, 13, 6, 9])"
    by (simp add: open_pull_def two_open16)
  have "base_setup 16 (2 ^ 61) = None"
    by (simp add: base_setup_def base2_exp_loop_16 in_int64_def)
  then have "mpt_reader_open (Some two_file) 16 (2 ^ 61) = Inl OpenUndefined"
    by (simp add: mpt_reader_open_def open_setup_def two_file_def two_header_def
        mpt_magic_def MPT_TYPE_MPF_def)
  then have b: "open_pull mpt_reader_get_digit (Some two_file) 16 (0 + int (2 ^ 61))
       (2 ^ 61 + 1 - 2 ^ 61) = Inl OpenUndefined"
    by (simp add: open_pull_def)
  from a b show ?thesis
    by simp
qed

text \<open>
  C1, amended: on a valid file (the header parses, the exponent is at most the stored
  length, the body holds the limbs the header announces), for the bases 10, 2 and 16,
  a start position \<open>p \<ge> 0\<close> and \<open>j \<le> k\<close> with \<open>p + j < 2^63\<close>, and \<open>p + j < 2^61\<close>
  in base 16: when opening at \<open>p\<close> and pulling \<open>k\<close> digits gives \<open>ds\<close>, opening at
  \<open>p + j\<close> and pulling \<open>k - j\<close> digits gives \<open>ds\<close> without its first \<open>j\<close> digits.
  Where the second open is refused, because \<open>p + j\<close> lies at or beyond the end of
  the data, the first stream has no digit left after its first \<open>j\<close>.
\<close>

theorem position_consistency:
  assumes "header fl = Some hdr" "magic hdr = mpt_magic" "type hdr = MPT_TYPE_MPF"
    and "0 \<le> sint (expn hdr)" "sint (expn hdr) \<le> uint (len hdr)"
    and "uint (len hdr) \<le> int (length (body fl))"
    and "MPT_DISK_HEADER_SIZE + 8 * int (length (body fl)) < 2 ^ 63"
    and "b = 10 \<or> b = 2 \<or> b = 16"
    and "0 \<le> p" "(if b = 16 then 4 else 1) * (p + int j) < 2 ^ 63" "j \<le> k"
    and "open_pull mpt_reader_get_digit (Some fl) b p k = Inr (Inr ds)"
  shows "open_pull mpt_reader_get_digit (Some fl) b (p + int j) (k - j) = Inr (Inr (drop j ds))
     \<or> open_pull mpt_reader_get_digit (Some fl) b (p + int j) (k - j)
           = Inl PositionOutOfRangeError \<and> drop j ds = []"
proof -
  let ?D = "fraction_digits b hdr fl"
  have le: "uint (len hdr) - sint (expn hdr) \<le> int (length (body fl))"
    using assms(4,6) by linarith
  have p1: "(if b = 16 then 4 else 1) * p < 2 ^ 63" "0 \<le> p + int j"
    using assms(9,10) by (auto split: if_splits)
  note a = open_pull_digits [OF assms(1-4) le assms(7,8) assms(9) p1(1) assms(5), of k]
  note b = open_pull_digits [OF assms(1-4) le assms(7,8) p1(2) assms(10) assms(5), of "k - j"]
  from a assms(12) have ds: "ds = take k (drop (nat p) ?D)"
    by (simp split: if_splits)
  have n: "nat (p + int j) = nat p + j"
    using assms(9) by linarith
  have "drop j ds = take (k - j) (drop (nat (p + int j)) ?D)"
    unfolding ds n by (simp add: drop_take add.commute)
  with b show ?thesis
    by (simp split: if_splits)
qed

theorem position_consistency_witness:
  "open_pull mpt_reader_get_digit (Some two_file) 10 16 6 = Inr (Inr [2, 3, 8, 4, 6, 2])
   \<and> open_pull mpt_reader_get_digit (Some two_file) 10 (16 + int 2) (6 - 2)
       = Inr (Inr [8, 4, 6, 2])
   \<and> drop 2 [2, 3, 8, 4, 6, 2 :: int] = [8, 4, 6, 2]
   \<and> open_pull mpt_reader_get_digit (Some two_file) 16 14 4 = Inr (Inr [13, 6, 4, 0])
   \<and> open_pull mpt_reader_get_digit (Some two_file) 16 (14 + int 1) (4 - 1)
       = Inr (Inr [6, 4, 0])
   \<and> open_pull mpt_reader_get_digit (Some pi_file) 10 0 19
       = Inr (Inr [3, 1, 4, 1, 5, 9, 2, 6, 5, 3, 5, 8, 9, 7, 9, 3, 2, 3, 8])
   \<and> open_pull mpt_reader_get_digit (Some pi_file) 10 (0 + int 19) (19 - 19)
       = Inl PositionOutOfRangeError"
proof -
  have h: "header two_file = Some two_header" "magic two_header = mpt_magic"
    "type two_header = MPT_TYPE_MPF" "0 \<le> sint (expn two_header)"
    "sint (expn two_header) \<le> uint (len two_header)"
    "uint (len two_header) \<le> int (length (body two_file))"
    "MPT_DISK_HEADER_SIZE + 8 * int (length (body two_file)) < 2 ^ 63"
    by (simp_all add: two_file_def two_header_def MPT_DISK_HEADER_SIZE_def)
  have g: "(10::int) = 10 \<or> (10::int) = 2 \<or> (10::int) = 16" "(0::int) \<le> 16"
    "(if (10::int) = 16 then 4 else 1) * (16 + int 2) < 2 ^ 63" "(2::nat) \<le> 6"
    by simp_all
  have a: "open_pull mpt_reader_get_digit (Some two_file) 10 16 6 = Inr (Inr [2, 3, 8, 4, 6, 2])"
    by code_simp
  have b: "open_pull mpt_reader_get_digit (Some two_file) 10 (16 + int 2) (6 - 2)
       \<noteq> Inl PositionOutOfRangeError"
    by code_simp
  have g16: "(16::int) = 10 \<or> (16::int) = 2 \<or> (16::int) = 16" "(0::int) \<le> 14"
    "(if (16::int) = 16 then 4 else 1) * (14 + int 1) < 2 ^ 63" "(1::nat) \<le> 4"
    by simp_all
  have a16: "open_pull mpt_reader_get_digit (Some two_file) 16 14 4 = Inr (Inr [13, 6, 4, 0])"
    by code_simp
  have b16: "open_pull mpt_reader_get_digit (Some two_file) 16 (14 + int 1) (4 - 1)
       \<noteq> Inl PositionOutOfRangeError"
    by code_simp
  have hp: "header pi_file = Some pi_header" "magic pi_header = mpt_magic"
    "type pi_header = MPT_TYPE_MPF" "0 \<le> sint (expn pi_header)"
    "sint (expn pi_header) \<le> uint (len pi_header)"
    "uint (len pi_header) \<le> int (length (body pi_file))"
    "MPT_DISK_HEADER_SIZE + 8 * int (length (body pi_file)) < 2 ^ 63"
    by (simp_all add: pi_file_def pi_header_def MPT_DISK_HEADER_SIZE_def)
  have gp: "(10::int) = 10 \<or> (10::int) = 2 \<or> (10::int) = 16" "(0::int) \<le> 0"
    "(if (10::int) = 16 then 4 else 1) * (0 + int 19) < 2 ^ 63" "(19::nat) \<le> 19"
    by simp_all
  have ap: "open_pull mpt_reader_get_digit (Some pi_file) 10 0 19
       = Inr (Inr [3, 1, 4, 1, 5, 9, 2, 6, 5, 3, 5, 8, 9, 7, 9, 3, 2, 3, 8])"
    by code_simp
  have bp: "open_pull mpt_reader_get_digit (Some pi_file) 10 (0 + int 19) (19 - 19)
       = Inl PositionOutOfRangeError"
    by code_simp
  from position_consistency [OF h g a] position_consistency [OF h g16 a16]
    position_consistency [OF hp gp ap] a b a16 b16 ap bp
  show ?thesis
    by simp
qed

end
